theory Spec2Isabelle
  imports Complex_Main
begin

section \<open>Shared Python notions\<close>

text \<open>
  Exceptions of the two tools are values. \<open>ExternalError\<close> stands for any exception
  raised inside a collaborator (vision service, generative model, imaging library,
  document store); its argument is the message.
\<close>

datatype py_error =
    FileNotFoundError string
  | KeyError string
  | IndexError
  | TypeError
  | ValueError
  | ExternalError string

text \<open>
  A Python \<open>dict\<close> keeps its keys in insertion order; assigning to a key that is already
  present replaces the value and leaves the key where it is.
\<close>

primrec dict_set :: "'k \<Rightarrow> 'v \<Rightarrow> ('k \<times> 'v) list \<Rightarrow> ('k \<times> 'v) list" where
  "dict_set k v [] = [(k, v)]"
| "dict_set k v (p # ps) = (if fst p = k then (k, v) # ps else p # dict_set k v ps)"

definition dict_has :: "'k \<Rightarrow> ('k \<times> 'v) list \<Rightarrow> bool" where
  "dict_has k d = (map_of d k \<noteq> None)"

text \<open>Decimal rendering of a non-negative integer, as \<open>str(n)\<close> and f-strings do.\<close>

definition digit_char :: "nat \<Rightarrow> char" where
  "digit_char d = char_of (48 + d)"

fun str_nat :: "nat \<Rightarrow> string" where
  "str_nat n = (if n < 10 then [digit_char n] else str_nat (n div 10) @ [digit_char (n mod 10)])"

declare str_nat.simps [simp del]

section \<open>SceneValidator: data model\<close>

record vertex =
  vx :: rat
  vy :: rat

record detected_object =
  obj_name :: string
  obj_score :: rat
  obj_vertices :: "vertex list"

record detected_face =
  face_confidence :: rat
  face_joy :: int
  face_sorrow :: int
  face_anger :: int
  face_surprise :: int
  face_vertices :: "vertex list"

text \<open>
  The annotation bag is a dict that starts empty and receives the keys \<open>objects\<close> and
  \<open>faces\<close>; an absent key is \<open>None\<close>.
\<close>

record annotations =
  ann_objects :: "detected_object list option"
  ann_faces :: "detected_face list option"

record scene =
  scene_path :: string
  scene_timestamp :: "string option"
  scene_metadata :: "(string \<times> string) list"
  scene_annotations :: annotations

record validation_issue =
  issue_id :: string
  issue_type :: string
  severity :: string
  description :: string
  suggestion :: string
  issue_scenes :: "string list"
  location :: "(int \<times> int) option"

record validation_results =
  issues :: "validation_issue list"
  validation_time :: nat
  scene_count :: nat

record validator =
  scenes :: "(string \<times> scene) list"
  scene_order :: "string list"
  use_firebase :: bool
  results :: validation_results

text \<open>
  The collaborators of the validator: the file system, the clock, the annotation
  service, the imaging library that reports an image's size, and the document store.
  Each is a function of its request, so the same request gets the same response.
\<close>

record world =
  path_exists :: "string \<Rightarrow> bool"
  clock :: nat
  vision :: "string \<Rightarrow> py_error + (detected_object list \<times> detected_face list)"
  image_size :: "string \<Rightarrow> py_error + (int \<times> int)"
  store_results :: "validation_results \<Rightarrow> py_error option"

definition new_results :: "world \<Rightarrow> validation_results" where
  "new_results w = \<lparr>issues = [], validation_time = clock w, scene_count = 0\<rparr>"

definition init_validator :: "world \<Rightarrow> bool \<Rightarrow> validator" where
  "init_validator w fb = \<lparr>scenes = [], scene_order = [], use_firebase = fb, results = new_results w\<rparr>"

definition add_issue :: "validation_issue \<Rightarrow> validation_results \<Rightarrow> validation_results" where
  "add_issue i r = r\<lparr>issues := issues r @ [i]\<rparr>"

section \<open>SceneValidator: ingestion\<close>

text \<open>
  \<open>add_scene\<close>: the metadata argument defaults to the empty dict, the annotation bag of
  the stored record is empty. The call either raises before it changes anything, or returns
  the new state; the log records it emits are returned with the state.
\<close>

definition empty_annotations :: annotations where
  "empty_annotations = \<lparr>ann_objects = None, ann_faces = None\<rparr>"

definition new_scene :: "string \<Rightarrow> string option \<Rightarrow> (string \<times> string) list option \<Rightarrow> scene" where
  "new_scene p ts md =
     \<lparr>scene_path = p, scene_timestamp = ts,
      scene_metadata = (case md of None \<Rightarrow> [] | Some m \<Rightarrow> m),
      scene_annotations = empty_annotations\<rparr>"

datatype log_level = Debug | Info | Warning | Error

type_synonym log_record = "log_level \<times> string"

definition add_scene ::
  "world \<Rightarrow> string \<Rightarrow> string \<Rightarrow> string option \<Rightarrow> (string \<times> string) list option \<Rightarrow> validator
     \<Rightarrow> py_error + (validator \<times> log_record list)" where
  "add_scene w p sid ts md s =
     (if \<not> path_exists w p then Inl (FileNotFoundError (''Scene file not found: '' @ p))
      else
        let log1 = (if dict_has sid (scenes s)
                    then [(Warning, ''Scene '' @ sid @ '' already exists and will be overwritten'')]
                    else []);
            s1 = s\<lparr>scenes := dict_set sid (new_scene p ts md) (scenes s)\<rparr>;
            s2 = (if sid \<notin> set (scene_order s1)
                  then s1\<lparr>scene_order := scene_order s1 @ [sid]\<rparr> else s1)
        in Inr (s2, log1 @ [(Info, ''Added scene '' @ sid @ '' to validation queue'')]))"

text \<open>
  The class invariant that ingestion maintains: the order list holds exactly the keys of
  the scene dict, each once.
\<close>

definition order_ok :: "validator \<Rightarrow> bool" where
  "order_ok s = (distinct (scene_order s) \<and> set (scene_order s) = fst ` set (scenes s))"


section \<open>SceneValidator: analysis and composition rule\<close>

text \<open>
  A method of the validator mutates the object and may raise. It is a function from the
  state to the state reached and the exception raised, if any: the mutations made before
  a \<open>raise\<close> stay.
\<close>

type_synonym 'st proc = "'st \<Rightarrow> 'st \<times> py_error option"

definition lookup_scene :: "string \<Rightarrow> validator \<Rightarrow> py_error + scene" where
  "lookup_scene sid s =
     (case map_of (scenes s) sid of None \<Rightarrow> Inl (KeyError sid) | Some sc \<Rightarrow> Inr sc)"

definition analyze_with_vision :: "world \<Rightarrow> string \<Rightarrow> validator proc" where
  "analyze_with_vision w sid s =
     (case lookup_scene sid s of
        Inl e \<Rightarrow> (s, Some e)
      | Inr sc \<Rightarrow>
          (case vision w (scene_path sc) of
             Inl e \<Rightarrow> (s, Some e)
           | Inr (objs, fcs) \<Rightarrow>
               let a1 = (scene_annotations sc)\<lparr>ann_objects := Some objs\<rparr>;
                   a2 = a1\<lparr>ann_faces := Some fcs\<rparr>
               in (s\<lparr>scenes := dict_set sid (sc\<lparr>scene_annotations := a2\<rparr>) (scenes s)\<rparr>, None)))"

text \<open>The custom model analysis is a placeholder that only logs.\<close>

definition analyze_with_ml :: "world \<Rightarrow> string \<Rightarrow> validator proc" where
  "analyze_with_ml w sid s = (s, None)"

text \<open>
  Numbers: image sizes are integers; coordinates, scores and everything computed from
  them with \<open>/\<close> are Python floats, taken here as exact rationals.
\<close>

definition thirds_points :: "int \<Rightarrow> int \<Rightarrow> (rat \<times> rat) list" where
  "thirds_points width height =
     [(of_int width / 3, of_int height / 3),
      (of_int (width * 2) / 3, of_int height / 3),
      (of_int width / 3, of_int (height * 2) / 3),
      (of_int (width * 2) / 3, of_int (height * 2) / 3)]"

definition vertex_at :: "vertex list \<Rightarrow> nat \<Rightarrow> py_error + vertex" where
  "vertex_at vs i = (if i < length vs then Inr (vs ! i) else Inl IndexError)"

text \<open>The key of \<open>max\<close>: the box area from vertices 2 and 0.\<close>

definition area_key :: "detected_object \<Rightarrow> py_error + rat" where
  "area_key obj =
     (case vertex_at (obj_vertices obj) 2 of
        Inl e \<Rightarrow> Inl e
      | Inr v2 \<Rightarrow>
          (case vertex_at (obj_vertices obj) 0 of
             Inl e \<Rightarrow> Inl e
           | Inr v0 \<Rightarrow> Inr ((vx v2 - vx v0) * (vy v2 - vy v0))))"

text \<open>
  \<open>max(xs, key=f)\<close>: one pass, the key computed once per element, the running maximum
  replaced only by a strictly greater key, so the first maximal element wins.
\<close>

fun max_from :: "('a \<Rightarrow> py_error + rat) \<Rightarrow> 'a \<Rightarrow> rat \<Rightarrow> 'a list \<Rightarrow> py_error + 'a" where
  "max_from key best kb [] = Inr best"
| "max_from key best kb (x # xs) =
     (case key x of
        Inl e \<Rightarrow> Inl e
      | Inr kx \<Rightarrow> if kb < kx then max_from key x kx xs else max_from key best kb xs)"

definition py_max_key :: "('a \<Rightarrow> py_error + rat) \<Rightarrow> 'a list \<Rightarrow> py_error + 'a" where
  "py_max_key key xs =
     (case xs of
        [] \<Rightarrow> Inl ValueError
      | x # rest \<Rightarrow> (case key x of Inl e \<Rightarrow> Inl e | Inr kx \<Rightarrow> max_from key x kx rest))"

definition object_center :: "int \<Rightarrow> int \<Rightarrow> detected_object \<Rightarrow> py_error + (rat \<times> rat)" where
  "object_center width height obj =
     (case vertex_at (obj_vertices obj) 0 of
        Inl e \<Rightarrow> Inl e
      | Inr v0 \<Rightarrow>
          (case vertex_at (obj_vertices obj) 2 of
             Inl e \<Rightarrow> Inl e
           | Inr v2 \<Rightarrow>
               Inr ((vx v0 + vx v2) / 2 * of_int width, (vy v0 + vy v2) / 2 * of_int height)))"

definition near_point :: "int \<Rightarrow> int \<Rightarrow> rat \<times> rat \<Rightarrow> rat \<times> rat \<Rightarrow> bool" where
  "near_point width height c pt =
     (\<bar>fst c - fst pt\<bar> < of_int width / 10 \<and> \<bar>snd c - snd pt\<bar> < of_int height / 10)"

definition near_thirds :: "int \<Rightarrow> int \<Rightarrow> rat \<times> rat \<Rightarrow> bool" where
  "near_thirds width height c = list_ex (near_point width height c) (thirds_points width height)"

text \<open>\<open>int(x)\<close> on a float truncates towards zero.\<close>

definition py_int :: "rat \<Rightarrow> int" where
  "py_int r = (if 0 \<le> r then \<lfloor>r\<rfloor> else \<lceil>r\<rceil>)"

definition thirds_issue :: "string \<Rightarrow> rat \<times> rat \<Rightarrow> validation_issue" where
  "thirds_issue sid c =
     \<lparr>issue_id = ''comp_thirds_'' @ sid,
      issue_type = ''Composition Rule of Thirds'',
      severity = ''Low'',
      description = ''Main subject in scene '' @ sid @ '' does not align with rule of thirds'',
      suggestion = ''Consider repositioning the main subject to a rule of thirds intersection'',
      issue_scenes = [sid],
      location = Some (py_int (fst c), py_int (snd c))\<rparr>"

definition get_objects :: "scene \<Rightarrow> detected_object list" where
  "get_objects sc = (case ann_objects (scene_annotations sc) of None \<Rightarrow> [] | Some os \<Rightarrow> os)"

definition validate_composition :: "world \<Rightarrow> string \<Rightarrow> validator proc" where
  "validate_composition w sid s =
     (case lookup_scene sid s of
        Inl e \<Rightarrow> (s, Some e)
      | Inr sc \<Rightarrow>
          (case image_size w (scene_path sc) of
             Inl e \<Rightarrow> (s, Some e)
           | Inr (width, height) \<Rightarrow>
               let objects = get_objects sc in
               if objects \<noteq> [] then
                 (case py_max_key area_key objects of
                    Inl e \<Rightarrow> (s, Some e)
                  | Inr largest_object \<Rightarrow>
                      (case object_center width height largest_object of
                         Inl e \<Rightarrow> (s, Some e)
                       | Inr c \<Rightarrow>
                           if \<not> near_thirds width height c
                           then (s\<lparr>results := add_issue (thirds_issue sid c) (results s)\<rparr>, None)
                           else (s, None)))
               else (s, None)))"

definition and_then :: "'st \<times> py_error option \<Rightarrow> 'st proc \<Rightarrow> 'st \<times> py_error option" where
  "and_then r f = (case snd r of Some e \<Rightarrow> r | None \<Rightarrow> f (fst r))"

definition process_scene :: "world \<Rightarrow> string \<Rightarrow> validator proc" where
  "process_scene w sid s =
     (case lookup_scene sid s of
        Inl e \<Rightarrow> (s, Some e)
      | Inr sc \<Rightarrow>
          and_then (and_then (analyze_with_vision w sid s) (analyze_with_ml w sid))
            (validate_composition w sid))"

section \<open>SceneValidator: continuity rule\<close>

definition apostrophe :: string where
  "apostrophe = [char_of (39 :: nat)]"

text \<open>The dict comprehension \<open>{obj['name']: obj for obj in objects}\<close>.\<close>

definition objects_by_name :: "detected_object list \<Rightarrow> (string \<times> detected_object) list" where
  "objects_by_name objs = foldl (\<lambda>d obj. dict_set (obj_name obj) obj d) [] objs"

definition missing_issue :: "string \<Rightarrow> string \<Rightarrow> string \<Rightarrow> validation_issue" where
  "missing_issue sid1 sid2 nm =
     \<lparr>issue_id = ''cont_obj_'' @ sid1 @ ''_'' @ sid2 @ ''_'' @ nm,
      issue_type = ''Continuity Object Missing'',
      severity = ''High'',
      description = ''Object '' @ apostrophe @ nm @ apostrophe @ '' present in scene '' @ sid1
                      @ '' is missing in scene '' @ sid2,
      suggestion = ''Add '' @ apostrophe @ nm @ apostrophe @ '' to scene '' @ sid2
                      @ '' or show it being removed'',
      issue_scenes = [sid1, sid2],
      location = None\<rparr>"

text \<open>The loop over \<open>objects1.items()\<close>.\<close>

fun missing_objects ::
  "string \<Rightarrow> string \<Rightarrow> (string \<times> detected_object) list \<Rightarrow> (string \<times> detected_object) list
     \<Rightarrow> validation_results \<Rightarrow> validation_results" where
  "missing_objects sid1 sid2 objects2 [] r = r"
| "missing_objects sid1 sid2 objects2 ((nm, obj) # rest) r =
     (if obj_score obj > 7 / 10 \<and> \<not> dict_has nm objects2
      then missing_objects sid1 sid2 objects2 rest (add_issue (missing_issue sid1 sid2 nm) r)
      else missing_objects sid1 sid2 objects2 rest r)"

definition face_center :: "detected_face \<Rightarrow> rat \<times> rat" where
  "face_center f =
     (sum_list (map vx (face_vertices f)) / 4, sum_list (map vy (face_vertices f)) / 4)"

definition face_issue :: "string \<Rightarrow> string \<Rightarrow> nat \<Rightarrow> validation_issue" where
  "face_issue sid1 sid2 i =
     \<lparr>issue_id = ''cont_face_pos_'' @ sid1 @ ''_'' @ sid2 @ ''_'' @ str_nat i,
      issue_type = ''Continuity Character Position'',
      severity = ''Medium'',
      description = ''Character position changed dramatically from scene '' @ sid1
                      @ '' to '' @ sid2,
      suggestion = ''Add transition scene or adjust character position'',
      issue_scenes = [sid1, sid2],
      location = None\<rparr>"

text \<open>The loop over \<open>enumerate(zip(faces1, faces2))\<close>, \<open>i\<close> the running index.\<close>

fun moved_faces ::
  "string \<Rightarrow> string \<Rightarrow> nat \<Rightarrow> (detected_face \<times> detected_face) list
     \<Rightarrow> validation_results \<Rightarrow> validation_results" where
  "moved_faces sid1 sid2 i [] r = r"
| "moved_faces sid1 sid2 i ((face1, face2) # rest) r =
     (let face1_center = face_center face1; face2_center = face_center face2 in
      if \<bar>fst face1_center - fst face2_center\<bar> > 4 / 10
      then moved_faces sid1 sid2 (Suc i) rest (add_issue (face_issue sid1 sid2 i) r)
      else moved_faces sid1 sid2 (Suc i) rest r)"

text \<open>Truthiness of \<open>annotations.get('faces')\<close>: present and not empty.\<close>

definition truthy_faces :: "scene \<Rightarrow> bool" where
  "truthy_faces sc =
     (case ann_faces (scene_annotations sc) of None \<Rightarrow> False | Some fs \<Rightarrow> fs \<noteq> [])"

definition faces_of :: "scene \<Rightarrow> detected_face list" where
  "faces_of sc = (case ann_faces (scene_annotations sc) of None \<Rightarrow> [] | Some fs \<Rightarrow> fs)"

definition character_position_check ::
  "string \<Rightarrow> string \<Rightarrow> scene \<Rightarrow> scene \<Rightarrow> validation_results \<Rightarrow> validation_results" where
  "character_position_check sid1 sid2 scene1 scene2 r =
     (if truthy_faces scene1 \<and> truthy_faces scene2 then
        (if length (faces_of scene1) = length (faces_of scene2)
         then moved_faces sid1 sid2 0 (zip (faces_of scene1) (faces_of scene2)) r
         else r)
      else r)"

definition object_persistence_check ::
  "string \<Rightarrow> string \<Rightarrow> scene \<Rightarrow> scene \<Rightarrow> validation_results \<Rightarrow> validation_results" where
  "object_persistence_check sid1 sid2 scene1 scene2 r =
     (let objects1 = objects_by_name (get_objects scene1);
          objects2 = objects_by_name (get_objects scene2)
      in missing_objects sid1 sid2 objects2 objects1 r)"

definition compare_scenes :: "world \<Rightarrow> string \<Rightarrow> string \<Rightarrow> validator proc" where
  "compare_scenes w sid1 sid2 s =
     (case lookup_scene sid1 s of
        Inl e \<Rightarrow> (s, Some e)
      | Inr scene1 \<Rightarrow>
          (case lookup_scene sid2 s of
             Inl e \<Rightarrow> (s, Some e)
           | Inr scene2 \<Rightarrow>
               let r1 = object_persistence_check sid1 sid2 scene1 scene2 (results s);
                   r2 = character_position_check sid1 sid2 scene1 scene2 r1
               in (s\<lparr>results := r2\<rparr>, None)))"

section \<open>SceneValidator: orchestration\<close>

fun process_scenes :: "world \<Rightarrow> string list \<Rightarrow> validator proc" where
  "process_scenes w [] s = (s, None)"
| "process_scenes w (sid # rest) s = and_then (process_scene w sid s) (process_scenes w rest)"

text \<open>
  The loop \<open>for i in range(len(order) - 1)\<close> over \<open>order[i]\<close>, \<open>order[i + 1]\<close>: the
  adjacent pairs from left to right.
\<close>

fun compare_adjacent :: "world \<Rightarrow> string list \<Rightarrow> validator proc" where
  "compare_adjacent w (scene1 # scene2 # rest) s =
     and_then (compare_scenes w scene1 scene2 s) (compare_adjacent w (scene2 # rest))"
| "compare_adjacent w order s = (s, None)"

definition store :: "world \<Rightarrow> validator proc" where
  "store w s =
     (if \<not> use_firebase s then (s, None) else (s, store_results w (results s)))"

text \<open>
  \<open>validate\<close> returns the state reached together with the exception raised or the
  result set returned. The result set is the validator's own \<open>results\<close> attribute.
\<close>

definition validate :: "world \<Rightarrow> validator \<Rightarrow> validator \<times> (py_error + validation_results)" where
  "validate w s =
     (if scenes s = [] then (s, Inr (results s))
      else
        let s1 = s\<lparr>results := new_results w\<rparr>;
            s2 = s1\<lparr>results := (results s1)\<lparr>scene_count := length (scenes s1)\<rparr>\<rparr>;
            s3 = and_then (process_scenes w (scene_order s2) s2)
                   (\<lambda>t. compare_adjacent w (scene_order t) t);
            s4 = and_then s3 (\<lambda>t. if use_firebase t then store w t else (t, None))
        in (case snd s4 of
              Some e \<Rightarrow> (fst s4, Inl e)
            | None \<Rightarrow> (fst s4, Inr (results (fst s4)))))"

section \<open>StoryboardGen: strings and the scene-heading pattern\<close>

text \<open>
  Script text is a list of characters. \<open>is_space\<close> is \<open>str.isspace\<close> on the code points
  below 256, which is also what \<open>\s\<close> matches in a pattern over \<open>str\<close>.
\<close>

definition is_space :: "char \<Rightarrow> bool" where
  "is_space c = (of_char c \<in> set [9, 10, 11, 12, 13, 28, 29, 30, 31, 32, 133, 160 :: nat])"

definition strip :: "string \<Rightarrow> string" where
  "strip s = rev (dropWhile is_space (rev (dropWhile is_space s)))"

definition newline :: char where
  "newline = char_of (10 :: nat)"

primrec starts_with :: "string \<Rightarrow> string \<Rightarrow> bool" where
  "starts_with [] s = True"
| "starts_with (p # ps) s = (case s of [] \<Rightarrow> False | c # cs \<Rightarrow> p = c \<and> starts_with ps cs)"

text \<open>The slice \<open>s[i:j]\<close> for \<open>0 \<le> i\<close>, \<open>0 \<le> j\<close>.\<close>

definition slice :: "string \<Rightarrow> nat \<Rightarrow> nat \<Rightarrow> string" where
  "slice s i j = take (j - i) (drop i s)"

text \<open>\<open>s.split("\n\n")\<close>: cut at each occurrence from the left, empty pieces kept.\<close>

fun split_blank :: "string \<Rightarrow> string \<Rightarrow> string list" where
  "split_blank cur [] = [cur]"
| "split_blank cur [c] = [cur @ [c]]"
| "split_blank cur (c # d # cs) =
     (if c = newline \<and> d = newline then cur # split_blank [] cs
      else split_blank (cur @ [c]) (d # cs))"

text \<open>
  The pattern \<open>(INT\.|EXT\.)\s+(.+?)(?=\n\n|\Z)\<close> with DOTALL, tried at the head of a
  text. The lazy group takes one character and then as few more as reach a position that
  is followed by a blank line or is the end of the text.
\<close>

fun lazy_rest :: "string \<Rightarrow> nat" where
  "lazy_rest [] = 0"
| "lazy_rest (c # cs) = (if starts_with [newline, newline] (c # cs) then 0 else Suc (lazy_rest cs))"

definition lazy_group :: "string \<Rightarrow> nat option" where
  "lazy_group r = (case r of [] \<Rightarrow> None | c # cs \<Rightarrow> Some (Suc (lazy_rest cs)))"

text \<open>
  The greedy \<open>\s+\<close> first takes the whole run of whitespace and gives characters back one
  at a time while the rest of the pattern fails; it keeps at least one.
\<close>

fun greedy_space :: "nat \<Rightarrow> string \<Rightarrow> (nat \<times> nat) option" where
  "greedy_space 0 r = None"
| "greedy_space (Suc k) r =
     (case lazy_group (drop (Suc k) r) of
        Some j \<Rightarrow> Some (Suc k, j)
      | None \<Rightarrow> greedy_space k r)"

text \<open>A match at the head: its length and the two groups.\<close>

definition match_here :: "string \<Rightarrow> (nat \<times> string \<times> string) option" where
  "match_here t =
     (if starts_with ''INT.'' t \<or> starts_with ''EXT.'' t then
        (let r = drop 4 t in
         case greedy_space (length (takeWhile is_space r)) r of
           None \<Rightarrow> None
         | Some (k, j) \<Rightarrow> Some (4 + k + j, take 4 t, take j (drop k r)))
      else None)"

text \<open>
  \<open>pattern.search(text, pos)\<close>: the leftmost match starting at \<open>pos\<close> or later, as
  (start, end, group 1, group 2).
\<close>

fun search_suffix :: "nat \<Rightarrow> string \<Rightarrow> (nat \<times> nat \<times> string \<times> string) option" where
  "search_suffix p [] = None"
| "search_suffix p (c # cs) =
     (case match_here (c # cs) of
        Some (n, g1, g2) \<Rightarrow> Some (p, p + n, g1, g2)
      | None \<Rightarrow> search_suffix (Suc p) cs)"

definition re_search :: "string \<Rightarrow> nat \<Rightarrow> (nat \<times> nat \<times> string \<times> string) option" where
  "re_search text pos = search_suffix pos (drop pos text)"

text \<open>
  \<open>pattern.findall(text)\<close> scans from the left; after a match the scan resumes at the
  end of that match. Every match is at least six characters long, which is why the scan
  ends.
\<close>

function match_spans :: "string \<Rightarrow> nat \<Rightarrow> (nat \<times> nat \<times> string \<times> string) list" where
  "match_spans text pos =
     (case re_search text pos of
        None \<Rightarrow> []
      | Some (st, en, g1, g2) \<Rightarrow> (st, en, g1, g2) # match_spans text en)"
  by pat_completeness auto
termination
proof (relation "measure (\<lambda>(tx, pos). length tx - pos)")
  show "wf (measure (\<lambda>(tx, pos). length tx - pos))" by simp
next
  fix tx pos x2 st y en ya g1 g2
  assume a: "re_search tx pos = Some x2" "(st, y) = x2" "(en, ya) = y" "(g1, g2) = ya"
  have lazy: "lazy_rest cs \<le> length cs" for cs
    by (induction cs) auto
  have grp: "0 < j \<and> j \<le> length r" if "lazy_group r = Some j" for r j
    using that lazy by (auto simp: lazy_group_def split: list.splits)
  have greedy: "greedy_space m r = Some (k, j) \<Longrightarrow> 0 < k \<and> 0 < j \<and> k + j \<le> length r" for m r k j
  proof (induction m)
    case 0
    then show ?case by simp
  next
    case (Suc m)
    show ?case
    proof (cases "lazy_group (drop (Suc m) r)")
      case None
      with Suc show ?thesis by auto
    next
      case (Some j')
      with Suc.prems have "k = Suc m" "j = j'" by auto
      with Some grp[of "drop (Suc m) r" j'] show ?thesis by auto
    qed
  qed
  have here: "0 < n \<and> n \<le> length t" if "match_here t = Some (n, g1, g2)" for t n g1 g2
    using that
    by (auto simp: match_here_def Let_def split: if_splits option.splits dest!: greedy)
  have suffix: "search_suffix p t = Some (st, en, g1, g2) \<Longrightarrow> st < en \<and> en \<le> p + length t \<and> p \<le> st"
    for p t st en g1 g2
  proof (induction t arbitrary: p)
    case Nil
    then show ?case by simp
  next
    case (Cons c cs)
    show ?case
    proof (cases "match_here (c # cs)")
      case None
      with Cons.prems have "search_suffix (Suc p) cs = Some (st, en, g1, g2)" by simp
      from Cons.IH[OF this] show ?thesis by simp
    next
      case (Some m)
      obtain n a b where "m = (n, a, b)" by (cases m)
      with Some Cons.prems here[of "c # cs" n a b] show ?thesis by auto
    qed
  qed
  from a have s: "search_suffix pos (drop pos tx) = Some (st, en, g1, g2)"
    by (simp add: re_search_def)
  then have "drop pos tx \<noteq> []" by auto
  then have "pos < length tx" by simp
  with suffix[OF s] have "pos < en \<and> en \<le> length tx"
    by simp
  then show "((tx, en), (tx, pos)) \<in> measure (\<lambda>(tx, pos). length tx - pos)"
    by auto
qed

declare match_spans.simps [simp del]

definition findall :: "string \<Rightarrow> (string \<times> string) list" where
  "findall text = map (\<lambda>(st, en, g1, g2). (g1, g2)) (match_spans text 0)"

section \<open>StoryboardGen: screenplay segmentation\<close>

record script_scene =
  scene_id :: string
  heading :: string
  content :: string

text \<open>The fallback loop over \<open>enumerate(chunks)\<close>.\<close>

fun paragraph_scenes :: "(nat \<times> string) list \<Rightarrow> script_scene list" where
  "paragraph_scenes [] = []"
| "paragraph_scenes ((i, chunk) # rest) =
     (if strip chunk \<noteq> []
      then \<lparr>scene_id = ''scene_'' @ str_nat (i + 1),
            heading = ''Scene '' @ str_nat (i + 1),
            content = strip chunk\<rparr> # paragraph_scenes rest
      else paragraph_scenes rest)"

text \<open>
  The loop over \<open>enumerate(scenes)\<close> for a text with scene headings; \<open>n\<close> is
  \<open>len(scenes)\<close> and \<open>cur\<close> is \<open>current_position\<close>.
\<close>

fun slug_scenes :: "string \<Rightarrow> nat \<Rightarrow> nat \<Rightarrow> (nat \<times> string \<times> string) list \<Rightarrow> script_scene list" where
  "slug_scenes text n cur [] = []"
| "slug_scenes text n cur ((i, location_type, scene_content) # rest) =
     (let scene_heading = location_type @ '' '' @ strip (takeWhile (\<lambda>c. c \<noteq> CHR ''('') scene_content) in
      case re_search text cur of
        None \<Rightarrow> slug_scenes text n cur rest
      | Some (start, end, g1, g2) \<Rightarrow>
          let scene_end =
                (if i < n - 1 then
                   (case re_search text end of
                      Some (next_start, next_end, h1, h2) \<Rightarrow> next_start
                    | None \<Rightarrow> length text)
                 else length text)
          in \<lparr>scene_id = ''scene_'' @ str_nat (i + 1),
               heading = scene_heading,
               content = strip (slice text start scene_end)\<rparr>
             # slug_scenes text n end rest)"

definition parse_script :: "string \<Rightarrow> script_scene list" where
  "parse_script text =
     (let found = findall text in
      if found = [] then paragraph_scenes (enumerate 0 (split_blank [] text))
      else slug_scenes text (length found) 0 (enumerate 0 found))"

section \<open>StoryboardGen: shot breakdown and frames\<close>

text \<open>What \<open>json.loads\<close> returns.\<close>

datatype json =
    JNull
  | JBool bool
  | JNum rat
  | JStr string
  | JArr "json list"
  | JObj "(string \<times> json) list"

record storyboard_frame =
  frame_id :: string
  frame_scene_id :: string
  frame_description :: json
  image_path :: string
  frame_timestamp :: "string option"
  shot_type :: json
  camera_movement :: json
  characters :: json
  frame_notes :: "string option"

text \<open>
  The collaborators of the generator. The text model is asked with a prompt that is the
  fixed template filled with the scene's heading and content, so its answer is a function
  of these two; it answers with a text or raises. \<open>json_loads\<close> is the JSON parser
  (\<open>None\<close> for JSONDecodeError). \<open>render\<close> is the drawing and saving of one shot's image
  once the shot's type and movement have been read. \<open>save_frames\<close> is the upload of one
  scene's frames.
\<close>

record gen_world =
  generate_content :: "string \<Rightarrow> string \<Rightarrow> py_error + string"
  json_loads :: "string \<Rightarrow> json option"
  render :: "script_scene \<Rightarrow> json \<Rightarrow> string \<Rightarrow> py_error option"
  save_frames :: "storyboard_frame list \<Rightarrow> py_error option"

text \<open>\<open>s.replace(pat, '')\<close> for a non-empty \<open>pat\<close>.\<close>

function remove_all :: "string \<Rightarrow> string \<Rightarrow> string" where
  "remove_all pat [] = []"
| "remove_all pat (c # cs) =
     (if pat \<noteq> [] \<and> starts_with pat (c # cs)
      then remove_all pat (drop (length pat) (c # cs))
      else c # remove_all pat cs)"
  by pat_completeness auto
termination
  by (relation "measure (\<lambda>(pat, s). length s)") auto

definition fence :: string where
  "fence = replicate 3 (char_of (96 :: nat))"

definition clean_response :: "string \<Rightarrow> string" where
  "clean_response result = strip (remove_all fence (remove_all (fence @ ''json'') result))"

definition fallback_shot :: "script_scene \<Rightarrow> json" where
  "fallback_shot scene =
     JObj [(''description'', JStr (''Establishing shot for '' @ heading scene)),
           (''shot_type'', JStr ''WS''),
           (''camera_movement'', JStr ''STATIC''),
           (''characters'', JArr []),
           (''visual_elements'', JArr [])]"

text \<open>\<open>len(x)\<close> on a parsed JSON value.\<close>

definition py_len :: "json \<Rightarrow> py_error + nat" where
  "py_len v =
     (case v of
        JArr xs \<Rightarrow> Inr (length xs)
      | JObj kvs \<Rightarrow> Inr (length kvs)
      | JStr s \<Rightarrow> Inr (length s)
      | _ \<Rightarrow> Inl TypeError)"

text \<open>
  \<open>_analyze_scene_for_shots\<close>: the inner handler catches the parser's error, the outer
  one every other exception, among them the failure of the request and the \<open>len\<close> of a
  parsed value that has none (the log line computes it).
\<close>

definition analyze_scene_for_shots :: "gen_world \<Rightarrow> script_scene \<Rightarrow> json" where
  "analyze_scene_for_shots g scene =
     (case generate_content g (heading scene) (content scene) of
        Inl e \<Rightarrow> JArr [fallback_shot scene]
      | Inr result \<Rightarrow>
          (case json_loads g (clean_response result) of
             None \<Rightarrow> JArr [fallback_shot scene]
           | Some shots \<Rightarrow>
               (case py_len shots of
                  Inl e \<Rightarrow> JArr [fallback_shot scene]
                | Inr n \<Rightarrow> shots)))"

text \<open>Iterating a JSON value: a list gives its items, a dict its keys, a string its characters.\<close>

definition py_iter :: "json \<Rightarrow> py_error + json list" where
  "py_iter v =
     (case v of
        JArr xs \<Rightarrow> Inr xs
      | JObj kvs \<Rightarrow> Inr (map (\<lambda>kv. JStr (fst kv)) kvs)
      | JStr s \<Rightarrow> Inr (map (\<lambda>c. JStr [c]) s)
      | _ \<Rightarrow> Inl TypeError)"

text \<open>\<open>shot[key]\<close> with a string key, and \<open>shot.get(key, [])\<close>.\<close>

definition shot_item :: "json \<Rightarrow> string \<Rightarrow> py_error + json" where
  "shot_item shot key =
     (case shot of
        JObj kvs \<Rightarrow> (case map_of kvs key of None \<Rightarrow> Inl (KeyError key) | Some v \<Rightarrow> Inr v)
      | _ \<Rightarrow> Inl TypeError)"

definition shot_get :: "json \<Rightarrow> string \<Rightarrow> py_error + json" where
  "shot_get shot key =
     (case shot of
        JObj kvs \<Rightarrow> (case map_of kvs key of None \<Rightarrow> Inr (JArr []) | Some v \<Rightarrow> Inr v)
      | _ \<Rightarrow> Inl TypeError)"

text \<open>A dict key must be hashable: a list or a dict is not.\<close>

definition hashable :: "json \<Rightarrow> bool" where
  "hashable v = (case v of JArr xs \<Rightarrow> False | JObj kvs \<Rightarrow> False | _ \<Rightarrow> True)"

definition generate_image_for_shot ::
  "gen_world \<Rightarrow> script_scene \<Rightarrow> json \<Rightarrow> string \<Rightarrow> py_error option" where
  "generate_image_for_shot g scene shot path =
     (case shot_item shot ''shot_type'' of
        Inl e \<Rightarrow> Some e
      | Inr st \<Rightarrow>
          if \<not> hashable st then Some TypeError
          else
            (case shot_item shot ''camera_movement'' of
               Inl e \<Rightarrow> Some e
             | Inr cm \<Rightarrow> if \<not> hashable cm then Some TypeError else render g scene shot path))"

text \<open>\<open>os.path.join(output_dir, name)\<close> for a relative \<open>name\<close>.\<close>

definition path_join :: "string \<Rightarrow> string \<Rightarrow> string" where
  "path_join dir name =
     (if dir = [] \<or> last dir = CHR ''/'' then dir @ name else dir @ ''/'' @ name)"

definition make_frame :: "script_scene \<Rightarrow> json \<Rightarrow> string \<Rightarrow> string \<Rightarrow> py_error + storyboard_frame" where
  "make_frame scene shot fid path =
     (case shot_item shot ''description'' of
        Inl e \<Rightarrow> Inl e
      | Inr d \<Rightarrow>
          (case shot_item shot ''shot_type'' of
             Inl e \<Rightarrow> Inl e
           | Inr st \<Rightarrow>
               (case shot_item shot ''camera_movement'' of
                  Inl e \<Rightarrow> Inl e
                | Inr cm \<Rightarrow>
                    (case shot_get shot ''characters'' of
                       Inl e \<Rightarrow> Inl e
                     | Inr chs \<Rightarrow>
                         Inr \<lparr>frame_id = fid, frame_scene_id = scene_id scene,
                              frame_description = d, image_path = path,
                              frame_timestamp = None, shot_type = st, camera_movement = cm,
                              characters = chs,
                              frame_notes = Some (''Generated for '' @ heading scene)\<rparr>))))"

text \<open>
  One round of the loop of \<open>_generate_frames_for_shots\<close>: the frame of shot \<open>i\<close>, or
  \<open>None\<close> when the \<open>try\<close> block raised.
\<close>

definition frame_for_shot ::
  "gen_world \<Rightarrow> script_scene \<Rightarrow> string \<Rightarrow> nat \<Rightarrow> json \<Rightarrow> storyboard_frame option" where
  "frame_for_shot g scene output_dir i shot =
     (let fid = scene_id scene @ ''_shot_'' @ str_nat (i + 1);
          path = path_join output_dir (fid @ ''.png'')
      in case generate_image_for_shot g scene shot path of
           Some e \<Rightarrow> None
         | None \<Rightarrow> (case make_frame scene shot fid path of Inl e \<Rightarrow> None | Inr f \<Rightarrow> Some f))"

fun frames_loop ::
  "gen_world \<Rightarrow> script_scene \<Rightarrow> string \<Rightarrow> (nat \<times> json) list \<Rightarrow> storyboard_frame list" where
  "frames_loop g scene output_dir [] = []"
| "frames_loop g scene output_dir ((i, shot) # rest) =
     (case frame_for_shot g scene output_dir i shot of
        Some f \<Rightarrow> f # frames_loop g scene output_dir rest
      | None \<Rightarrow> frames_loop g scene output_dir rest)"

definition generate_frames_for_shots ::
  "gen_world \<Rightarrow> script_scene \<Rightarrow> json \<Rightarrow> string \<Rightarrow> py_error + storyboard_frame list" where
  "generate_frames_for_shots g scene shots output_dir =
     (case py_iter shots of
        Inl e \<Rightarrow> Inl e
      | Inr items \<Rightarrow> Inr (frames_loop g scene output_dir (enumerate 0 items)))"

text \<open>
  \<open>generate_storyboard\<close> over the parsed scenes: \<open>acc\<close> is \<open>self.frames\<close>. An exception
  of the frame loop or of the upload ends the run.
\<close>

fun storyboard_loop ::
  "gen_world \<Rightarrow> bool \<Rightarrow> string \<Rightarrow> script_scene list \<Rightarrow> storyboard_frame list
     \<Rightarrow> py_error + storyboard_frame list" where
  "storyboard_loop g fb output_dir [] acc = Inr acc"
| "storyboard_loop g fb output_dir (scene # rest) acc =
     (let shots = analyze_scene_for_shots g scene in
      case generate_frames_for_shots g scene shots output_dir of
        Inl e \<Rightarrow> Inl e
      | Inr scene_frames \<Rightarrow>
          (case (if fb then save_frames g scene_frames else None) of
             Some e \<Rightarrow> Inl e
           | None \<Rightarrow> storyboard_loop g fb output_dir rest (acc @ scene_frames)))"

definition generate_storyboard ::
  "gen_world \<Rightarrow> bool \<Rightarrow> string \<Rightarrow> script_scene list \<Rightarrow> py_error + storyboard_frame list" where
  "generate_storyboard g fb output_dir script_scenes =
     (if script_scenes = [] then Inl ValueError
      else storyboard_loop g fb output_dir script_scenes [])"

section \<open>A concrete validation session\<close>

text \<open>
  Two images of 300 by 300 pixels. In the first a lamp fills the upper left and a cup is
  detected twice; the second shows a chair only. Each image has one face.
\<close>

definition box :: "rat \<Rightarrow> rat \<Rightarrow> rat \<Rightarrow> rat \<Rightarrow> vertex list" where
  "box x0 y0 x1 y1 =
     [\<lparr>vx = x0, vy = y0\<rparr>, \<lparr>vx = x1, vy = y0\<rparr>, \<lparr>vx = x1, vy = y1\<rparr>, \<lparr>vx = x0, vy = y1\<rparr>]"

definition demo_face :: "rat \<Rightarrow> detected_face" where
  "demo_face x =
     \<lparr>face_confidence = 9 / 10, face_joy = 1, face_sorrow = 1, face_anger = 1,
      face_surprise = 1, face_vertices = box x (1 / 10) (x + 1 / 10) (2 / 10)\<rparr>"

definition demo_objects_a :: "detected_object list" where
  "demo_objects_a =
     [\<lparr>obj_name = ''cup'', obj_score = 9 / 10, obj_vertices = box (1 / 10) (1 / 10) (2 / 10) (2 / 10)\<rparr>,
      \<lparr>obj_name = ''lamp'', obj_score = 8 / 10, obj_vertices = box 0 0 (2 / 10) (4 / 10)\<rparr>,
      \<lparr>obj_name = ''cup'', obj_score = 5 / 10, obj_vertices = box (5 / 10) (5 / 10) (6 / 10) (6 / 10)\<rparr>]"

definition demo_objects_b :: "detected_object list" where
  "demo_objects_b =
     [\<lparr>obj_name = ''chair'', obj_score = 9 / 10,
       obj_vertices = box (2 / 10) (2 / 10) (5 / 10) (5 / 10)\<rparr>]"

definition demo_world :: world where
  "demo_world =
     \<lparr>path_exists = (\<lambda>p. p = ''a.jpg'' \<or> p = ''b.jpg''),
      clock = 7,
      vision = (\<lambda>p. if p = ''a.jpg'' then Inr (demo_objects_a, [demo_face (1 / 10)])
                     else if p = ''b.jpg'' then Inr (demo_objects_b, [demo_face (6 / 10)])
                     else Inl (ExternalError ''no such image'')),
      image_size = (\<lambda>p. if p = ''a.jpg'' \<or> p = ''b.jpg'' then Inr (300, 300)
                         else Inl (ExternalError ''cannot identify image file'')),
      store_results = (\<lambda>r. None)\<rparr>"

definition demo_validator :: validator where
  "demo_validator =
     \<lparr>scenes = [(''s1'', new_scene ''a.jpg'' None None), (''s2'', new_scene ''b.jpg'' None None)],
      scene_order = [''s1'', ''s2''],
      use_firebase = False,
      results = \<lparr>issues = [], validation_time = 0, scene_count = 0\<rparr>\<rparr>"

text \<open>The same session after both scenes have been annotated.\<close>

definition demo_scene_a :: scene where
  "demo_scene_a =
     (new_scene ''a.jpg'' None None)
       \<lparr>scene_annotations := \<lparr>ann_objects = Some demo_objects_a, ann_faces = Some [demo_face (1 / 10)]\<rparr>\<rparr>"

definition demo_scene_b :: scene where
  "demo_scene_b =
     (new_scene ''b.jpg'' None None)
       \<lparr>scene_annotations := \<lparr>ann_objects = Some demo_objects_b, ann_faces = Some [demo_face (6 / 10)]\<rparr>\<rparr>"

definition demo_analyzed :: validator where
  "demo_analyzed = demo_validator\<lparr>scenes := [(''s1'', demo_scene_a), (''s2'', demo_scene_b)]\<rparr>"

section \<open>Notions of the specification\<close>



text \<open>
  Last write wins: the record a scene's name-to-record map holds for a name is the last
  object of the list with that name.
\<close>

definition last_named :: "detected_object list \<Rightarrow> string \<Rightarrow> detected_object option" where
  "last_named objs nm =
     (case filter (\<lambda>obj. obj_name obj = nm) objs of [] \<Rightarrow> None | o1 # os \<Rightarrow> Some (last (o1 # os)))"


text \<open>A scene whose only object was detected with low confidence.\<close>

definition demo_scene_low :: scene where
  "demo_scene_low =
     (new_scene ''a.jpg'' None None)
       \<lparr>scene_annotations :=
          \<lparr>ann_objects = Some [\<lparr>obj_name = ''cup'', obj_score = 5 / 10,
                                 obj_vertices = box 0 0 (1 / 10) (1 / 10)\<rparr>],
           ann_faces = Some [demo_face (1 / 10), demo_face (3 / 10)]\<rparr>\<rparr>"

text \<open>
  What a validation run reads of a validator: the ids and paths of its scenes in the order
  of the scene dict, the order list and the storage flag. Two states with the same inputs
  may differ in the annotations and results that earlier runs left behind.
\<close>

definition scene_inputs :: "validator \<Rightarrow> (string \<times> string) list" where
  "scene_inputs s = map (\<lambda>kv. (fst kv, scene_path (snd kv))) (scenes s)"

definition same_inputs :: "validator \<Rightarrow> validator \<Rightarrow> bool" where
  "same_inputs s t =
     (scene_inputs s = scene_inputs t \<and> scene_order s = scene_order t
      \<and> use_firebase s = use_firebase t)"

text \<open>
  Two states in the middle of two runs agree when they have the same inputs and results and
  the scenes named in \<open>D\<close> carry the same annotations.
\<close>

definition annotation_of :: "validator \<Rightarrow> string \<Rightarrow> annotations option" where
  "annotation_of s k = map_option scene_annotations (map_of (scenes s) k)"

definition agree :: "string set \<Rightarrow> validator \<Rightarrow> validator \<Rightarrow> bool" where
  "agree D s t =
     (same_inputs s t \<and> results s = results t
      \<and> (\<forall>k. k \<in> D \<longrightarrow> annotation_of s k = annotation_of t k))"

text \<open>
  The states a validator can be in when only its constructor and its methods \<open>add_scene\<close>
  and \<open>validate\<close> have touched it.
\<close>

inductive reachable :: "validator \<Rightarrow> bool" where
  reach_init: "reachable (init_validator w fb)"
| reach_add: "reachable s \<Longrightarrow> add_scene w p sid ts md s = Inr (s', lg) \<Longrightarrow> reachable s'"
| reach_validate: "reachable s \<Longrightarrow> reachable (fst (validate w s))"

text \<open>A validator without scenes whose result set holds an issue.\<close>

definition demo_stale :: validator where
  "demo_stale =
     \<lparr>scenes = [], scene_order = [], use_firebase = False,
      results = \<lparr>issues = [thirds_issue ''old'' (0, 0)], validation_time = 3, scene_count = 2\<rparr>\<rparr>"

text \<open>
  What the composition check makes of a result set, and what it raises, given only the
  path and the detected objects of the scene it checks.
\<close>

definition composition_outcome ::
  "world \<Rightarrow> string \<Rightarrow> string \<Rightarrow> detected_object list \<Rightarrow> validation_results
     \<Rightarrow> validation_results \<times> py_error option" where
  "composition_outcome w sid p objects r =
     (case image_size w p of
        Inl e \<Rightarrow> (r, Some e)
      | Inr (width, height) \<Rightarrow>
          if objects \<noteq> [] then
            (case py_max_key area_key objects of
               Inl e \<Rightarrow> (r, Some e)
             | Inr largest_object \<Rightarrow>
                 (case object_center width height largest_object of
                    Inl e \<Rightarrow> (r, Some e)
                  | Inr c \<Rightarrow>
                      if \<not> near_thirds width height c
                      then (add_issue (thirds_issue sid c) r, None)
                      else (r, None)))
          else (r, None))"

section \<open>A concrete storyboard session\<close>

text \<open>
  The world in which the text model's answer to the request for one scene is replaced,
  by an exception or by another text, and every other request is answered as before.
\<close>

definition with_response :: "gen_world \<Rightarrow> script_scene \<Rightarrow> py_error + string \<Rightarrow> gen_world" where
  "with_response g scene resp =
     g\<lparr>generate_content :=
         (\<lambda>h c. if h = heading scene \<and> c = content scene then resp else generate_content g h c)\<rparr>"

text \<open>The frames one scene contributes to a storyboard.\<close>

definition scene_frames :: "gen_world \<Rightarrow> string \<Rightarrow> script_scene \<Rightarrow> storyboard_frame list" where
  "scene_frames g output_dir scene =
     (case generate_frames_for_shots g scene (analyze_scene_for_shots g scene) output_dir of
        Inl e \<Rightarrow> []
      | Inr fs \<Rightarrow> fs)"

definition demo_scene_1 :: script_scene where
  "demo_scene_1 = \<lparr>scene_id = ''scene_1'', heading = ''Scene 1'', content = ''A door opens.''\<rparr>"

definition demo_scene_2 :: script_scene where
  "demo_scene_2 = \<lparr>scene_id = ''scene_2'', heading = ''Scene 2'', content = ''Rain.''\<rparr>"

definition demo_shot :: "string \<Rightarrow> json" where
  "demo_shot d =
     JObj [(''description'', JStr d), (''shot_type'', JStr ''CU''), (''camera_movement'', JStr ''PAN'')]"

text \<open>Three shots; the second lacks its shot type, so drawing it raises KeyError.\<close>

definition demo_shots :: "json list" where
  "demo_shots = [demo_shot ''hand on the handle'', JObj [(''description'', JStr ''no type'')],
                 demo_shot ''the door swings'']"

definition demo_gen_world :: gen_world where
  "demo_gen_world =
     \<lparr>generate_content = (\<lambda>h c. if h = ''Scene 1'' then Inr ''Sorry, I cannot help.''
                                 else Inr ''[three shots]''),
      json_loads = (\<lambda>s. if s = ''[three shots]'' then Some (JArr demo_shots) else None),
      render = (\<lambda>scene shot p. None),
      save_frames = (\<lambda>fs. None)\<rparr>"

section \<open>Notions of the specification: segmentation\<close>

text \<open>Joining pieces with a blank line between them, the inverse of the split.\<close>

fun join_blank :: "string list \<Rightarrow> string" where
  "join_blank [] = []"
| "join_blank [c] = c"
| "join_blank (c # d # cs) = c @ [newline, newline] @ join_blank (d # cs)"

text \<open>
  The segment made of the match number \<open>i\<close> (from 0) of the scene-heading pattern: it
  starts at the match's start \<open>st\<close> and ends before \<open>nxt\<close>.
\<close>

definition slug_segment :: "string \<Rightarrow> nat \<Rightarrow> nat \<times> nat \<times> string \<times> string \<Rightarrow> nat \<Rightarrow> script_scene" where
  "slug_segment text i m nxt =
     (case m of (st, en, g1, g2) \<Rightarrow>
        \<lparr>scene_id = ''scene_'' @ str_nat (i + 1),
         heading = g1 @ '' '' @ strip (takeWhile (\<lambda>c. c \<noteq> CHR ''('') g2),
         content = strip (slice text st nxt)\<rparr>)"

text \<open>
  Each match's segment runs to the start of the next match, the last one to the end of
  the text.
\<close>

fun segments_of :: "string \<Rightarrow> nat \<Rightarrow> (nat \<times> nat \<times> string \<times> string) list \<Rightarrow> script_scene list" where
  "segments_of text i [] = []"
| "segments_of text i [m] = [slug_segment text i m (length text)]"
| "segments_of text i (m # m' # ms) = slug_segment text i m (fst m') # segments_of text (Suc i) (m' # ms)"

text \<open>Sample scripts.\<close>

definition script_blank_first :: string where
  "script_blank_first = [newline, newline] @ ''Hello''"

definition script_paragraphs :: string where
  "script_paragraphs = ''Hello'' @ [newline, newline] @ ''  '' @ [newline, newline] @ ''World ''"

definition script_midline :: string where
  "script_midline = ''PRINT. it''"

definition script_two_scenes :: string where
  "script_two_scenes =
     ''INT. KITCHEN - DAY'' @ [newline] @ ''Ann cooks.'' @ [newline, newline]
     @ ''EXT. STREET (NIGHT)'' @ [newline] @ ''Rain.'' @ [newline]"

definition script_marker_only :: string where
  "script_marker_only = ''INT.a'' @ [newline, newline] @ ''b''"

section \<open>Facts about dicts\<close>

lemma map_of_dict_set: "map_of (dict_set k v d) = (map_of d)(k \<mapsto> v)"
  by (induction d) auto

lemma keys_dict_set: "fst ` set (dict_set k v d) = insert k (fst ` set d)"
  by (induction d) auto

lemma dict_set_keys_present:
  "k \<in> fst ` set d \<Longrightarrow> map fst (dict_set k v d) = map fst d"
  by (induction d) auto

lemma dict_set_keys_absent:
  "k \<notin> fst ` set d \<Longrightarrow> map fst (dict_set k v d) = map fst d @ [k]"
  by (induction d) auto

lemma dict_has_iff: "dict_has k d \<longleftrightarrow> k \<in> fst ` set d"
  by (simp add: dict_has_def map_of_eq_None_iff)

section \<open>Ingestion\<close>

lemma order_ok_init: "order_ok (init_validator w fb)"
  by (simp add: order_ok_def init_validator_def)

lemma add_scene_cases:
  assumes "path_exists w p"
  shows "add_scene w p sid ts md s =
           Inr ((if sid \<in> set (scene_order s)
                 then s\<lparr>scenes := dict_set sid (new_scene p ts md) (scenes s)\<rparr>
                 else s\<lparr>scenes := dict_set sid (new_scene p ts md) (scenes s),
                        scene_order := scene_order s @ [sid]\<rparr>),
                (if dict_has sid (scenes s)
                 then [(Warning, ''Scene '' @ sid @ '' already exists and will be overwritten'')]
                 else [])
                @ [(Info, ''Added scene '' @ sid @ '' to validation queue'')])"
  using assms by (simp add: add_scene_def Let_def new_scene_def)

lemma order_ok_add_scene:
  assumes "order_ok s" and "add_scene w p sid ts md s = Inr (s', lg)"
  shows "order_ok s'"
proof -
  from assms(2) have ex: "path_exists w p"
    by (auto simp: add_scene_def split: if_splits)
  have keys: "fst ` set (dict_set sid r (scenes s)) = insert sid (fst ` set (scenes s))" for r
    by (rule keys_dict_set)
  show ?thesis
  proof (cases "sid \<in> set (scene_order s)")
    case True
    with assms(2) have "s' = s\<lparr>scenes := dict_set sid (new_scene p ts md) (scenes s)\<rparr>"
      by (simp add: add_scene_cases[OF ex])
    with assms(1) True keys show ?thesis
      by (simp add: order_ok_def insert_absorb)
  next
    case False
    with assms(2)
    have "s' = s\<lparr>scenes := dict_set sid (new_scene p ts md) (scenes s),
                  scene_order := scene_order s @ [sid]\<rparr>"
      by (simp add: add_scene_cases[OF ex])
    with assms(1) False keys show ?thesis
      by (simp add: order_ok_def)
  qed
qed

text \<open>
  C7. A call to \<open>add_scene\<close> with a path that does not exist fails with the not-found
  error; the call returns nothing but the error, so the scene map and the order stay as
  they were. With an existing path the call succeeds and the record stored under the id is
  the new one, every other id keeping its record. If the id was already in the scene map,
  a warning is logged, the order list is unchanged and so is the key order of the map (the
  id keeps its position); if the id is new, no warning is logged and the id is appended at
  the end of the order. The state is one that the constructor and \<open>add_scene\<close> produce:
  the order list holds the ids of the map, each once.
\<close>

theorem add_scene_contract:
  assumes "order_ok s"
  shows "(\<not> path_exists w p \<longrightarrow>
            add_scene w p sid ts md s = Inl (FileNotFoundError (''Scene file not found: '' @ p)))
       \<and> (path_exists w p \<longrightarrow>
            (\<exists>s' lg. add_scene w p sid ts md s = Inr (s', lg)
               \<and> map_of (scenes s') sid = Some (new_scene p ts md)
               \<and> (\<forall>k. k \<noteq> sid \<longrightarrow> map_of (scenes s') k = map_of (scenes s) k)
               \<and> (dict_has sid (scenes s) \<longrightarrow>
                     scene_order s' = scene_order s
                     \<and> map fst (scenes s') = map fst (scenes s)
                     \<and> (\<exists>msg. (Warning, msg) \<in> set lg))
               \<and> (\<not> dict_has sid (scenes s) \<longrightarrow>
                     scene_order s' = scene_order s @ [sid]
                     \<and> map fst (scenes s') = map fst (scenes s) @ [sid]
                     \<and> (\<forall>msg. (Warning, msg) \<notin> set lg))))"
proof (intro conjI impI)
  assume "\<not> path_exists w p"
  then show "add_scene w p sid ts md s = Inl (FileNotFoundError (''Scene file not found: '' @ p))"
    by (simp add: add_scene_def)
next
  assume ex: "path_exists w p"
  from assms have inv: "set (scene_order s) = fst ` set (scenes s)"
    by (simp add: order_ok_def)
  show "\<exists>s' lg. add_scene w p sid ts md s = Inr (s', lg)
               \<and> map_of (scenes s') sid = Some (new_scene p ts md)
               \<and> (\<forall>k. k \<noteq> sid \<longrightarrow> map_of (scenes s') k = map_of (scenes s) k)
               \<and> (dict_has sid (scenes s) \<longrightarrow>
                     scene_order s' = scene_order s
                     \<and> map fst (scenes s') = map fst (scenes s)
                     \<and> (\<exists>msg. (Warning, msg) \<in> set lg))
               \<and> (\<not> dict_has sid (scenes s) \<longrightarrow>
                     scene_order s' = scene_order s @ [sid]
                     \<and> map fst (scenes s') = map fst (scenes s) @ [sid]
                     \<and> (\<forall>msg. (Warning, msg) \<notin> set lg))"
  proof (cases "dict_has sid (scenes s)")
    case True
    then have "sid \<in> set (scene_order s)" "sid \<in> fst ` set (scenes s)"
      using inv by (simp_all add: dict_has_iff)
    with True show ?thesis
      by (simp add: add_scene_cases[OF ex] map_of_dict_set dict_set_keys_present)
  next
    case False
    then have "sid \<notin> set (scene_order s)" "sid \<notin> fst ` set (scenes s)"
      using inv by (simp_all add: dict_has_iff)
    with False show ?thesis
      by (simp add: add_scene_cases[OF ex] map_of_dict_set dict_set_keys_absent)
  qed
qed

theorem add_scene_contract_witness:
  "order_ok demo_validator
   \<and> add_scene demo_world ''missing.jpg'' ''s1'' None None demo_validator
       = Inl (FileNotFoundError ''Scene file not found: missing.jpg'')
   \<and> (\<exists>s' lg. add_scene demo_world ''b.jpg'' ''s1'' None None demo_validator = Inr (s', lg)
         \<and> scene_order s' = [''s1'', ''s2''] \<and> (\<exists>msg. (Warning, msg) \<in> set lg))
   \<and> (\<exists>s' lg. add_scene demo_world ''b.jpg'' ''s3'' None None demo_validator = Inr (s', lg)
         \<and> scene_order s' = [''s1'', ''s2'', ''s3''])"
proof -
  have ok: "order_ok demo_validator"
    by (simp add: order_ok_def demo_validator_def)
  have miss: "\<not> path_exists demo_world ''missing.jpg''" and ex: "path_exists demo_world ''b.jpg''"
    by (simp_all add: demo_world_def)
  have h1: "dict_has ''s1'' (scenes demo_validator)" and h3: "\<not> dict_has ''s3'' (scenes demo_validator)"
    by (simp_all add: dict_has_def demo_validator_def)
  have ord: "scene_order demo_validator = [''s1'', ''s2'']"
    by (simp add: demo_validator_def)
  from add_scene_contract[OF ok, of demo_world "''missing.jpg''" "''s1''" None None] miss
  have a: "add_scene demo_world ''missing.jpg'' ''s1'' None None demo_validator
       = Inl (FileNotFoundError ''Scene file not found: missing.jpg'')"
    by simp
  from add_scene_contract[OF ok, of demo_world "''b.jpg''" "''s1''" None None] ex h1 ord
  have b: "\<exists>s' lg. add_scene demo_world ''b.jpg'' ''s1'' None None demo_validator = Inr (s', lg)
         \<and> scene_order s' = [''s1'', ''s2''] \<and> (\<exists>msg. (Warning, msg) \<in> set lg)"
    by auto
  from add_scene_contract[OF ok, of demo_world "''b.jpg''" "''s3''" None None] ex h3 ord
  have c: "\<exists>s' lg. add_scene demo_world ''b.jpg'' ''s3'' None None demo_validator = Inr (s', lg)
         \<and> scene_order s' = [''s1'', ''s2'', ''s3'']"
    by auto
  from ok a b c show ?thesis by blast
qed

section \<open>Composition rule\<close>









section \<open>Enumerated loops\<close>

lemma enumerate_nth: "enumerate 0 xs = map (\<lambda>k. (k, xs ! k)) [0..<length xs]"
proof -
  have "enumerate 0 xs = enumerate 0 (map (nth xs) [0..<length xs])"
    by (simp add: map_nth)
  also have "\<dots> = map (\<lambda>k. (k, xs ! k)) [0..<length xs]"
    by (rule enumerate_map_upt)
  finally show ?thesis .
qed

section \<open>Continuity rule: object persistence\<close>

lemma objects_fold_lookup:
  "map_of (foldl (\<lambda>d obj. dict_set (obj_name obj) obj d) d objs) nm =
     (case last_named objs nm of None \<Rightarrow> map_of d nm | Some obj \<Rightarrow> Some obj)"
proof (induction objs arbitrary: d)
  case Nil
  then show ?case by (simp add: last_named_def)
next
  case (Cons a objs)
  show ?case
    by (simp add: Cons.IH map_of_dict_set last_named_def split: list.splits)
qed

lemma objects_fold_keys:
  "fst ` set (foldl (\<lambda>d obj. dict_set (obj_name obj) obj d) d objs) = fst ` set d \<union> obj_name ` set objs"
  by (induction objs arbitrary: d) (auto simp: keys_dict_set)

lemma distinct_dict_set: "distinct (map fst d) \<Longrightarrow> distinct (map fst (dict_set k v d))"
  by (induction d) (auto simp: keys_dict_set)

lemma objects_fold_distinct:
  "distinct (map fst d) \<Longrightarrow> distinct (map fst (foldl (\<lambda>d obj. dict_set (obj_name obj) obj d) d objs))"
  by (induction objs arbitrary: d) (auto simp: distinct_dict_set)

lemma objects_by_name_lookup: "map_of (objects_by_name objs) nm = last_named objs nm"
  by (simp add: objects_by_name_def objects_fold_lookup split: option.splits)

lemma objects_by_name_keys: "fst ` set (objects_by_name objs) = obj_name ` set objs"
  by (simp add: objects_by_name_def objects_fold_keys)

lemma objects_by_name_distinct: "distinct (map fst (objects_by_name objs))"
  by (simp add: objects_by_name_def objects_fold_distinct)

lemma missing_objects_eq:
  "missing_objects sid1 sid2 objects2 items r =
     r\<lparr>issues := issues r @ map (missing_issue sid1 sid2)
        (map fst (filter (\<lambda>(nm, obj). obj_score obj > 7 / 10 \<and> \<not> dict_has nm objects2) items))\<rparr>"
proof (induction items arbitrary: r)
  case Nil
  then show ?case by simp
next
  case (Cons a items)
  obtain nm obj where a: "a = (nm, obj)" by (cases a)
  show ?case
  proof (cases "obj_score obj > 7 / 10 \<and> \<not> dict_has nm objects2")
    case True
    then show ?thesis
      unfolding a by (simp add: Cons.IH add_issue_def)
  next
    case False
    then show ?thesis
      unfolding a by (auto simp: Cons.IH)
  qed
qed

lemma last_named_in_set:
  assumes "last_named objs nm = Some obj"
  shows "obj \<in> set objs \<and> obj_name obj = nm"
proof -
  from assms obtain o1 os where f: "filter (\<lambda>obj. obj_name obj = nm) objs = o1 # os"
    and l: "obj = last (o1 # os)"
    by (auto simp: last_named_def split: list.splits)
  have "last (o1 # os) \<in> set (o1 # os)" by (rule last_in_set) simp
  with f l have "obj \<in> set (filter (\<lambda>obj. obj_name obj = nm) objs)" by simp
  then show ?thesis by simp
qed

lemma items_filter:
  assumes "distinct (map fst items)"
  shows "map fst (filter (\<lambda>(nm, obj). P nm obj) items) =
         filter (\<lambda>nm. case map_of items nm of None \<Rightarrow> False | Some obj \<Rightarrow> P nm obj) (map fst items)"
  using assms
proof (induction items)
  case Nil
  then show ?case by simp
next
  case (Cons a items)
  obtain k v where a: "a = (k, v)" by (cases a)
  from Cons.prems a have k: "k \<notin> fst ` set items" and d: "distinct (map fst items)" by auto
  have "filter (\<lambda>nm. case map_of (a # items) nm of None \<Rightarrow> False | Some obj \<Rightarrow> P nm obj) (map fst items)
      = filter (\<lambda>nm. case map_of items nm of None \<Rightarrow> False | Some obj \<Rightarrow> P nm obj) (map fst items)"
    using k a by (intro filter_cong) auto
  with Cons.IH[OF d] a show ?case by simp
qed

text \<open>
  C4. The object-persistence check of a scene pair builds for each scene the map from
  names to records in which the last object of a name wins, and appends to the result set
  one High-severity object-missing issue naming both scenes for exactly the names of the
  earlier scene's map whose record has a confidence above 0.7 and that are not names of
  the later scene, in the order in which the names first appear. If every object of the
  earlier scene has a confidence of at most 0.7, the check appends nothing.
\<close>

theorem object_persistence:
  "object_persistence_check sid1 sid2 scene1 scene2 r =
     r\<lparr>issues := issues r @
        map (missing_issue sid1 sid2)
          (filter (\<lambda>nm. (case last_named (get_objects scene1) nm of
                           None \<Rightarrow> False | Some obj \<Rightarrow> obj_score obj > 7 / 10)
                        \<and> nm \<notin> obj_name ` set (get_objects scene2))
                  (map fst (objects_by_name (get_objects scene1))))\<rparr>
   \<and> distinct (map fst (objects_by_name (get_objects scene1)))
   \<and> set (map fst (objects_by_name (get_objects scene1))) = obj_name ` set (get_objects scene1)
   \<and> (\<forall>nm. map_of (objects_by_name (get_objects scene1)) nm = last_named (get_objects scene1) nm)
   \<and> (\<forall>nm. dict_has nm (objects_by_name (get_objects scene2)) \<longleftrightarrow> nm \<in> obj_name ` set (get_objects scene2))
   \<and> (\<forall>nm. severity (missing_issue sid1 sid2 nm) = ''High''
           \<and> issue_type (missing_issue sid1 sid2 nm) = ''Continuity Object Missing''
           \<and> issue_scenes (missing_issue sid1 sid2 nm) = [sid1, sid2])
   \<and> ((\<forall>obj\<in>set (get_objects scene1). obj_score obj \<le> 7 / 10) \<longrightarrow>
         object_persistence_check sid1 sid2 scene1 scene2 r = r)"
proof -
  let ?o1 = "objects_by_name (get_objects scene1)"
  let ?o2 = "objects_by_name (get_objects scene2)"
  let ?P = "\<lambda>nm obj. obj_score obj > 7 / 10 \<and> \<not> dict_has nm ?o2"
  have has2: "dict_has nm ?o2 \<longleftrightarrow> nm \<in> obj_name ` set (get_objects scene2)" for nm
    by (simp add: dict_has_iff objects_by_name_keys)
  have sel: "map fst (filter (\<lambda>(nm, obj). ?P nm obj) ?o1) =
        filter (\<lambda>nm. (case last_named (get_objects scene1) nm of
                           None \<Rightarrow> False | Some obj \<Rightarrow> obj_score obj > 7 / 10)
                        \<and> nm \<notin> obj_name ` set (get_objects scene2)) (map fst ?o1)"
    unfolding items_filter[OF objects_by_name_distinct, of ?P]
    by (intro filter_cong) (auto simp: objects_by_name_lookup has2 split: option.splits)
  have main: "object_persistence_check sid1 sid2 scene1 scene2 r =
     r\<lparr>issues := issues r @
        map (missing_issue sid1 sid2)
          (filter (\<lambda>nm. (case last_named (get_objects scene1) nm of
                           None \<Rightarrow> False | Some obj \<Rightarrow> obj_score obj > 7 / 10)
                        \<and> nm \<notin> obj_name ` set (get_objects scene2))
                  (map fst ?o1))\<rparr>"
    unfolding object_persistence_check_def Let_def missing_objects_eq sel ..
  have low: "object_persistence_check sid1 sid2 scene1 scene2 r = r"
    if all: "\<forall>obj\<in>set (get_objects scene1). obj_score obj \<le> 7 / 10"
  proof -
    have "filter (\<lambda>(nm, obj). ?P nm obj) ?o1 = []"
    proof -
      have "\<not> ?P nm obj" if "(nm, obj) \<in> set ?o1" for nm obj
      proof -
        from that have "map_of ?o1 nm = Some obj"
          using objects_by_name_distinct by simp
        then have "last_named (get_objects scene1) nm = Some obj"
          by (simp add: objects_by_name_lookup)
        then have "obj \<in> set (get_objects scene1)"
          by (simp add: last_named_in_set)
        with all show ?thesis by auto
      qed
      then show ?thesis by (auto simp: filter_empty_conv)
    qed
    then show ?thesis
      by (simp add: object_persistence_check_def Let_def missing_objects_eq)
  qed
  show ?thesis
    using main low objects_by_name_distinct[of "get_objects scene1"]
      objects_by_name_keys[of "get_objects scene1"] objects_by_name_lookup has2
    by (simp add: missing_issue_def)
qed

theorem object_persistence_witness:
  "object_persistence_check ''s1'' ''s2'' demo_scene_a demo_scene_b (results demo_analyzed) =
     (results demo_analyzed)\<lparr>issues := [missing_issue ''s1'' ''s2'' ''lamp'']\<rparr>
   \<and> map fst (objects_by_name (get_objects demo_scene_a)) = [''cup'', ''lamp'']
   \<and> last_named (get_objects demo_scene_a) ''cup''
       = Some \<lparr>obj_name = ''cup'', obj_score = 5 / 10,
               obj_vertices = box (5 / 10) (5 / 10) (6 / 10) (6 / 10)\<rparr>
   \<and> obj_score \<lparr>obj_name = ''cup'', obj_score = 5 / 10,
               obj_vertices = box (1 / 10) (1 / 10) (2 / 10) (2 / 10)\<rparr> \<le> 7 / 10
   \<and> object_persistence_check ''s1'' ''s2'' demo_scene_low demo_scene_b (results demo_analyzed)
       = results demo_analyzed"
proof -
  have oa: "get_objects demo_scene_a = demo_objects_a" and ob: "get_objects demo_scene_b = demo_objects_b"
    and ol: "get_objects demo_scene_low = [\<lparr>obj_name = ''cup'', obj_score = 5 / 10,
                                 obj_vertices = box 0 0 (1 / 10) (1 / 10)\<rparr>]"
    by (simp_all add: get_objects_def demo_scene_a_def demo_scene_b_def demo_scene_low_def)
  have keys: "map fst (objects_by_name (get_objects demo_scene_a)) = [''cup'', ''lamp'']"
    by (simp add: oa objects_by_name_def demo_objects_a_def)
  have cup: "last_named (get_objects demo_scene_a) ''cup''
       = Some \<lparr>obj_name = ''cup'', obj_score = 5 / 10,
               obj_vertices = box (5 / 10) (5 / 10) (6 / 10) (6 / 10)\<rparr>"
    by (simp add: oa last_named_def demo_objects_a_def)
  have lamp: "last_named (get_objects demo_scene_a) ''lamp''
       = Some \<lparr>obj_name = ''lamp'', obj_score = 8 / 10, obj_vertices = box 0 0 (2 / 10) (4 / 10)\<rparr>"
    by (simp add: oa last_named_def demo_objects_a_def)
  have i0: "issues (results demo_analyzed) = []"
    by (simp add: demo_analyzed_def demo_validator_def)
  have low: "\<forall>obj\<in>set (get_objects demo_scene_low). obj_score obj \<le> 7 / 10"
    by (simp add: ol)
  from object_persistence[of "''s1''" "''s2''" demo_scene_a demo_scene_b "results demo_analyzed"]
  have a: "object_persistence_check ''s1'' ''s2'' demo_scene_a demo_scene_b (results demo_analyzed) =
     (results demo_analyzed)\<lparr>issues := [missing_issue ''s1'' ''s2'' ''lamp'']\<rparr>"
    by (simp add: keys cup lamp i0 ob demo_objects_b_def)
  from object_persistence[of "''s1''" "''s2''" demo_scene_low demo_scene_b "results demo_analyzed"] low
  have b: "object_persistence_check ''s1'' ''s2'' demo_scene_low demo_scene_b (results demo_analyzed)
       = results demo_analyzed"
    by blast
  from a b keys cup show ?thesis by simp
qed

section \<open>Continuity rule: character displacement\<close>






lemma compare_scenes_checks:
  assumes "lookup_scene sid1 s = Inr scene1" and "lookup_scene sid2 s = Inr scene2"
  shows "compare_scenes w sid1 sid2 s =
           (s\<lparr>results := character_position_check sid1 sid2 scene1 scene2
                           (object_persistence_check sid1 sid2 scene1 scene2 (results s))\<rparr>, None)"
  using assms by (simp add: compare_scenes_def)

section \<open>Orchestration: a run depends on its inputs only\<close>

lemma and_then_simps:
  "and_then (s, None) f = f s" "and_then (s, Some e) f = (s, Some e)"
  by (simp_all add: and_then_def)

lemma map_of_paths:
  "map_of (map (\<lambda>kv. (fst kv, scene_path (snd kv))) d) k = map_option scene_path (map_of d k)"
  by (induction d) auto

lemma inputs_lookup:
  assumes "scene_inputs s = scene_inputs t"
  shows "map_option scene_path (map_of (scenes s) k) = map_option scene_path (map_of (scenes t) k)"
proof -
  have "map_of (scene_inputs s) k = map_of (scene_inputs t) k"
    using assms by simp
  then show ?thesis
    by (simp add: scene_inputs_def map_of_paths)
qed

lemma inputs_dict_set:
  assumes "map_of d k = Some sc" and "scene_path sc' = scene_path sc"
  shows "map (\<lambda>kv. (fst kv, scene_path (snd kv))) (dict_set k sc' d)
       = map (\<lambda>kv. (fst kv, scene_path (snd kv))) d"
  using assms by (induction d) (auto split: if_splits)

lemma lookup_cases:
  assumes "same_inputs s t"
  shows "(lookup_scene k s = Inl (KeyError k) \<and> lookup_scene k t = Inl (KeyError k))
       \<or> (\<exists>sc sc'. lookup_scene k s = Inr sc \<and> lookup_scene k t = Inr sc'
             \<and> scene_path sc = scene_path sc')"
proof -
  from assms have "scene_inputs s = scene_inputs t"
    by (simp add: same_inputs_def)
  then have eq: "map_option scene_path (map_of (scenes s) k) = map_option scene_path (map_of (scenes t) k)"
    by (rule inputs_lookup)
  show ?thesis
  proof (cases "map_of (scenes s) k")
    case None
    with eq have "map_of (scenes t) k = None" by simp
    with None show ?thesis by (simp add: lookup_scene_def)
  next
    case (Some sc)
    with eq obtain sc' where "map_of (scenes t) k = Some sc'" "scene_path sc = scene_path sc'"
      by (cases "map_of (scenes t) k") auto
    with Some show ?thesis by (simp add: lookup_scene_def)
  qed
qed

lemma lookup_scene_Inr: "lookup_scene k s = Inr sc \<longleftrightarrow> map_of (scenes s) k = Some sc"
  by (simp add: lookup_scene_def split: option.splits)

lemma annotations_literal:
  "a\<lparr>ann_objects := x, ann_faces := y\<rparr> = \<lparr>ann_objects = x, ann_faces = y\<rparr>"
  by (cases a) simp

lemma analyze_with_vision_ok:
  assumes "lookup_scene k s = Inr sc" and "vision w (scene_path sc) = Inr (objs, fcs)"
  shows "analyze_with_vision w k s =
           (s\<lparr>scenes := dict_set k
                 (sc\<lparr>scene_annotations := \<lparr>ann_objects = Some objs, ann_faces = Some fcs\<rparr>\<rparr>)
                 (scenes s)\<rparr>, None)"
  by (simp add: analyze_with_vision_def assms Let_def annotations_literal)

lemma analyze_with_vision_err:
  assumes "lookup_scene k s = Inr sc" and "vision w (scene_path sc) = Inl e"
  shows "analyze_with_vision w k s = (s, Some e)"
  by (simp add: analyze_with_vision_def assms)

lemma validate_composition_outcome:
  assumes "lookup_scene k s = Inr sc"
  shows "validate_composition w k s =
           (s\<lparr>results := fst (composition_outcome w k (scene_path sc) (get_objects sc) (results s))\<rparr>,
            snd (composition_outcome w k (scene_path sc) (get_objects sc) (results s)))"
proof (cases "image_size w (scene_path sc)")
  case (Inl e)
  then show ?thesis
    by (simp add: validate_composition_def composition_outcome_def assms)
next
  case (Inr wh)
  obtain width height where wh: "wh = (width, height)" by (cases wh)
  show ?thesis
  proof (cases "get_objects sc = []")
    case True
    with Inr wh show ?thesis
      by (simp add: validate_composition_def composition_outcome_def assms)
  next
    case False
    show ?thesis
    proof (cases "py_max_key area_key (get_objects sc)")
      case (Inl e)
      with Inr wh False show ?thesis
        by (simp add: validate_composition_def composition_outcome_def assms)
    next
      case lo: (Inr largest)
      show ?thesis
      proof (cases "object_center width height largest")
        case (Inl e)
        with Inr wh False lo show ?thesis
          by (simp add: validate_composition_def composition_outcome_def assms)
      next
        case c: (Inr c)
        with Inr wh False lo show ?thesis
          by (simp add: validate_composition_def composition_outcome_def assms)
      qed
    qed
  qed
qed

lemma process_scene_missing:
  assumes "lookup_scene k s = Inl e"
  shows "process_scene w k s = (s, Some e)"
  by (simp add: process_scene_def assms)

lemma process_scene_vision_err:
  assumes "lookup_scene k s = Inr sc" and "vision w (scene_path sc) = Inl e"
  shows "process_scene w k s = (s, Some e)"
  by (simp add: process_scene_def assms analyze_with_vision_err[OF assms] and_then_simps)

lemma process_scene_ok:
  assumes "lookup_scene k s = Inr sc" and "vision w (scene_path sc) = Inr (objs, fcs)"
  shows "process_scene w k s =
           (s\<lparr>scenes := dict_set k
                 (sc\<lparr>scene_annotations := \<lparr>ann_objects = Some objs, ann_faces = Some fcs\<rparr>\<rparr>)
                 (scenes s),
               results := fst (composition_outcome w k (scene_path sc) objs (results s))\<rparr>,
            snd (composition_outcome w k (scene_path sc) objs (results s)))"
proof -
  let ?sc1 = "sc\<lparr>scene_annotations := \<lparr>ann_objects = Some objs, ann_faces = Some fcs\<rparr>\<rparr>"
  let ?s1 = "s\<lparr>scenes := dict_set k ?sc1 (scenes s)\<rparr>"
  have l1: "lookup_scene k ?s1 = Inr ?sc1"
    by (simp add: lookup_scene_def map_of_dict_set)
  have "process_scene w k s = validate_composition w k ?s1"
    by (simp add: process_scene_def assms(1) analyze_with_vision_ok[OF assms] and_then_simps
        analyze_with_ml_def)
  also have "\<dots> = (?s1\<lparr>results := fst (composition_outcome w k (scene_path sc) objs (results s))\<rparr>,
            snd (composition_outcome w k (scene_path sc) objs (results s)))"
    by (simp add: validate_composition_outcome[OF l1] get_objects_def)
  finally show ?thesis by simp
qed

lemma scene_inputs_update:
  assumes "map_of (scenes s) k = Some sc" and "scene_path sc1 = scene_path sc"
  shows "scene_inputs (s\<lparr>scenes := dict_set k sc1 (scenes s), results := r\<rparr>) = scene_inputs s"
  using inputs_dict_set[OF assms] by (simp add: scene_inputs_def)

lemma annotation_of_update:
  "annotation_of (s\<lparr>scenes := dict_set k sc1 (scenes s), results := r\<rparr>) k' =
     (if k' = k then Some (scene_annotations sc1) else annotation_of s k')"
  by (simp add: annotation_of_def map_of_dict_set)

lemma agree_mono: "agree D s t \<Longrightarrow> D' \<subseteq> D \<Longrightarrow> agree D' s t"
  by (auto simp: agree_def)

lemma process_scene_agree:
  assumes "agree D s t"
  shows "\<exists>e s' t'. process_scene w k s = (s', e) \<and> process_scene w k t = (t', e)
           \<and> agree D s' t' \<and> (e = None \<longrightarrow> agree (insert k D) s' t')"
proof -
  from assms have si: "same_inputs s t" and res: "results s = results t"
    by (simp_all add: agree_def)
  from lookup_cases[OF si, of k] show ?thesis
  proof (elim disjE conjE exE)
    assume "lookup_scene k s = Inl (KeyError k)" "lookup_scene k t = Inl (KeyError k)"
    then have "process_scene w k s = (s, Some (KeyError k))" "process_scene w k t = (t, Some (KeyError k))"
      by (simp_all add: process_scene_missing)
    with assms show ?thesis by simp
  next
    fix sc sc'
    assume l: "lookup_scene k s = Inr sc" and l': "lookup_scene k t = Inr sc'"
      and p: "scene_path sc = scene_path sc'"
    show ?thesis
    proof (cases "vision w (scene_path sc)")
      case (Inl e)
      with l l' p have "process_scene w k s = (s, Some e)" "process_scene w k t = (t, Some e)"
        by (simp_all add: process_scene_vision_err)
      with assms show ?thesis by simp
    next
      case (Inr r)
      obtain objs fcs where r: "r = (objs, fcs)" by (cases r)
      let ?A = "\<lparr>ann_objects = Some objs, ann_faces = Some fcs\<rparr>"
      let ?co = "composition_outcome w k (scene_path sc) objs (results s)"
      let ?s' = "s\<lparr>scenes := dict_set k (sc\<lparr>scene_annotations := ?A\<rparr>) (scenes s), results := fst ?co\<rparr>"
      let ?t' = "t\<lparr>scenes := dict_set k (sc'\<lparr>scene_annotations := ?A\<rparr>) (scenes t), results := fst ?co\<rparr>"
      from Inr r have v: "vision w (scene_path sc) = Inr (objs, fcs)" by simp
      with p have v': "vision w (scene_path sc') = Inr (objs, fcs)" by simp
      have ps: "process_scene w k s = (?s', snd ?co)"
        by (rule process_scene_ok[OF l v])
      have pt: "process_scene w k t = (?t', snd ?co)"
        using process_scene_ok[OF l' v'] p res by simp
      from l l' have m: "map_of (scenes s) k = Some sc" "map_of (scenes t) k = Some sc'"
        by (simp_all add: lookup_scene_Inr)
      have in1: "scene_inputs ?s' = scene_inputs s"
        by (rule scene_inputs_update[OF m(1)]) simp
      have in2: "scene_inputs ?t' = scene_inputs t"
        by (rule scene_inputs_update[OF m(2)]) simp
      have ag: "agree (insert k D) ?s' ?t'"
        unfolding agree_def same_inputs_def in1 in2 annotation_of_update
        using assms by (simp add: agree_def same_inputs_def)
      from ag have "agree D ?s' ?t'"
        by (rule agree_mono) auto
      with ps pt ag show ?thesis by blast
    qed
  qed
qed

lemma process_scenes_agree:
  assumes "agree D s t"
  shows "\<exists>e s' t'. process_scenes w ks s = (s', e) \<and> process_scenes w ks t = (t', e)
           \<and> agree D s' t' \<and> (e = None \<longrightarrow> agree (D \<union> set ks) s' t')"
  using assms
proof (induction ks arbitrary: D s t)
  case Nil
  then show ?case by simp
next
  case (Cons k ks)
  from process_scene_agree[OF Cons.prems, of w k]
  obtain e s1 t1 where 1: "process_scene w k s = (s1, e)" "process_scene w k t = (t1, e)"
    "agree D s1 t1" "e = None \<longrightarrow> agree (insert k D) s1 t1" by blast
  show ?case
  proof (cases e)
    case (Some err)
    with 1 show ?thesis by (simp add: and_then_simps)
  next
    case None
    with 1 have a: "agree (insert k D) s1 t1" by simp
    from Cons.IH[OF a]
    obtain e2 s2 t2 where 2: "process_scenes w ks s1 = (s2, e2)" "process_scenes w ks t1 = (t2, e2)"
      "agree (insert k D) s2 t2" "e2 = None \<longrightarrow> agree (insert k D \<union> set ks) s2 t2" by blast
    from 2(3) have "agree D s2 t2" by (rule agree_mono) auto
    with 1 2 None show ?thesis by (simp add: and_then_simps)
  qed
qed

lemma checks_cong:
  assumes "scene_annotations a = scene_annotations a'" and "scene_annotations b = scene_annotations b'"
  shows "character_position_check k1 k2 a b (object_persistence_check k1 k2 a b r)
       = character_position_check k1 k2 a' b' (object_persistence_check k1 k2 a' b' r)"
  using assms
  by (simp add: character_position_check_def object_persistence_check_def get_objects_def
      truthy_faces_def faces_of_def)

lemma compare_scenes_agree:
  assumes "agree D s t" and "k1 \<in> D" and "k2 \<in> D"
  shows "\<exists>e s' t'. compare_scenes w k1 k2 s = (s', e) \<and> compare_scenes w k1 k2 t = (t', e)
           \<and> agree D s' t'"
proof -
  from assms(1) have si: "same_inputs s t" and res: "results s = results t"
    and an: "annotation_of s k1 = annotation_of t k1" "annotation_of s k2 = annotation_of t k2"
    using assms(2,3) by (simp_all add: agree_def)
  from lookup_cases[OF si, of k1] show ?thesis
  proof (elim disjE conjE exE)
    assume "lookup_scene k1 s = Inl (KeyError k1)" "lookup_scene k1 t = Inl (KeyError k1)"
    with assms(1) show ?thesis by (simp add: compare_scenes_def)
  next
    fix a a'
    assume l1: "lookup_scene k1 s = Inr a" "lookup_scene k1 t = Inr a'"
    with an(1) have a: "scene_annotations a = scene_annotations a'"
      by (simp add: annotation_of_def lookup_scene_Inr)
    from lookup_cases[OF si, of k2] show ?thesis
    proof (elim disjE conjE exE)
      assume "lookup_scene k2 s = Inl (KeyError k2)" "lookup_scene k2 t = Inl (KeyError k2)"
      with assms(1) l1 show ?thesis by (simp add: compare_scenes_def)
    next
      fix b b'
      assume l2: "lookup_scene k2 s = Inr b" "lookup_scene k2 t = Inr b'"
      with an(2) have b: "scene_annotations b = scene_annotations b'"
        by (simp add: annotation_of_def lookup_scene_Inr)
      let ?r = "character_position_check k1 k2 a b (object_persistence_check k1 k2 a b (results s))"
      have cs: "compare_scenes w k1 k2 s = (s\<lparr>results := ?r\<rparr>, None)"
        by (rule compare_scenes_checks[OF l1(1) l2(1)])
      have ct: "compare_scenes w k1 k2 t = (t\<lparr>results := ?r\<rparr>, None)"
        unfolding compare_scenes_checks[OF l1(2) l2(2)] checks_cong[OF a b] res ..
      have "agree D (s\<lparr>results := ?r\<rparr>) (t\<lparr>results := ?r\<rparr>)"
        using assms(1) by (simp add: agree_def same_inputs_def scene_inputs_def annotation_of_def)
      with cs ct show ?thesis by blast
    qed
  qed
qed

lemma compare_adjacent_agree:
  assumes "agree D s t" and "set ks \<subseteq> D"
  shows "\<exists>e s' t'. compare_adjacent w ks s = (s', e) \<and> compare_adjacent w ks t = (t', e)
           \<and> agree D s' t'"
  using assms
proof (induction ks arbitrary: s t)
  case Nil
  then show ?case by simp
next
  case (Cons scene1 ks)
  show ?case
  proof (cases ks)
    case Nil
    with Cons.prems show ?thesis by simp
  next
    case (Cons scene2 rest)
    with Cons.prems(2) have in1: "scene1 \<in> D" "scene2 \<in> D" and sub: "set ks \<subseteq> D" by auto
    from compare_scenes_agree[OF Cons.prems(1) in1, of w]
    obtain e s1 t1 where c: "compare_scenes w scene1 scene2 s = (s1, e)"
      "compare_scenes w scene1 scene2 t = (t1, e)" "agree D s1 t1" by blast
    show ?thesis
    proof (cases e)
      case (Some err)
      with c Cons show ?thesis by (simp add: and_then_simps)
    next
      case None
      from Cons.IH[OF c(3) sub]
      obtain e2 s2 t2 where "compare_adjacent w ks s1 = (s2, e2)" "compare_adjacent w ks t1 = (t2, e2)"
        "agree D s2 t2" by blast
      with c None Cons show ?thesis by (simp add: and_then_simps)
    qed
  qed
qed

lemma same_inputs_refl: "same_inputs s s"
  by (simp add: same_inputs_def)

lemma same_inputs_trans: "same_inputs s t \<Longrightarrow> same_inputs t u \<Longrightarrow> same_inputs s u"
  by (simp add: same_inputs_def)

lemma same_inputs_results: "same_inputs s (s\<lparr>results := r\<rparr>)"
  by (simp add: same_inputs_def scene_inputs_def)

lemma process_scene_keeps: "same_inputs s (fst (process_scene w k s))"
proof (cases "lookup_scene k s")
  case (Inl e)
  then show ?thesis by (simp add: process_scene_missing same_inputs_refl)
next
  case (Inr sc)
  show ?thesis
  proof (cases "vision w (scene_path sc)")
    case (Inl e)
    with Inr show ?thesis by (simp add: process_scene_vision_err same_inputs_refl)
  next
    case r: (Inr r)
    obtain objs fcs where "r = (objs, fcs)" by (cases r)
    with r have v: "vision w (scene_path sc) = Inr (objs, fcs)" by simp
    from Inr have m: "map_of (scenes s) k = Some sc" by (simp add: lookup_scene_Inr)
    have "scene_inputs (s\<lparr>scenes := dict_set k
                 (sc\<lparr>scene_annotations := \<lparr>ann_objects = Some objs, ann_faces = Some fcs\<rparr>\<rparr>)
                 (scenes s),
               results := fst (composition_outcome w k (scene_path sc) objs (results s))\<rparr>) = scene_inputs s"
      by (rule scene_inputs_update[OF m]) simp
    then show ?thesis
      by (simp add: process_scene_ok[OF Inr v] same_inputs_def)
  qed
qed

lemma process_scenes_keeps: "same_inputs s (fst (process_scenes w ks s))"
proof (induction ks arbitrary: s)
  case Nil
  show ?case by (simp add: same_inputs_refl)
next
  case (Cons k ks)
  obtain s1 e where p: "process_scene w k s = (s1, e)" by (cases "process_scene w k s")
  with process_scene_keeps[of s w k] have k1: "same_inputs s s1" by simp
  show ?case
  proof (cases e)
    case (Some err)
    with p k1 show ?thesis by (simp add: and_then_simps)
  next
    case None
    with p have "fst (process_scenes w (k # ks) s) = fst (process_scenes w ks s1)"
      by (simp add: and_then_simps)
    with same_inputs_trans[OF k1 Cons.IH[of s1]] show ?thesis by simp
  qed
qed

lemma compare_scenes_keeps: "same_inputs s (fst (compare_scenes w k1 k2 s))"
  by (cases "lookup_scene k1 s"; cases "lookup_scene k2 s")
    (simp_all add: compare_scenes_def same_inputs_refl same_inputs_results Let_def)

lemma compare_adjacent_keeps: "same_inputs s (fst (compare_adjacent w ks s))"
proof (induction ks arbitrary: s)
  case Nil
  show ?case by (simp add: same_inputs_refl)
next
  case (Cons scene1 ks)
  show ?case
  proof (cases ks)
    case Nil
    then show ?thesis by (simp add: same_inputs_refl)
  next
    case (Cons scene2 rest)
    obtain s1 e where c: "compare_scenes w scene1 scene2 s = (s1, e)"
      by (cases "compare_scenes w scene1 scene2 s")
    with compare_scenes_keeps[of s w scene1 scene2] have k1: "same_inputs s s1" by simp
    show ?thesis
    proof (cases e)
      case (Some err)
      with c k1 Cons show ?thesis by (simp add: and_then_simps)
    next
      case None
      with c Cons have "fst (compare_adjacent w (scene1 # ks) s) = fst (compare_adjacent w ks s1)"
        by (simp add: and_then_simps)
      with same_inputs_trans[OF k1 Cons.IH[of s1]] show ?thesis by simp
    qed
  qed
qed

text \<open>The run on a validator that has scenes, after the result set has been replaced.\<close>

lemma validate_nonempty:
  assumes "scenes s \<noteq> []"
  shows "validate w s =
     (let s4 = and_then
                 (and_then
                    (process_scenes w (scene_order s)
                       (s\<lparr>results := (new_results w)\<lparr>scene_count := length (scenes s)\<rparr>\<rparr>))
                    (\<lambda>u. compare_adjacent w (scene_order u) u))
                 (\<lambda>u. if use_firebase u then store w u else (u, None))
      in (fst s4, case snd s4 of Some e \<Rightarrow> Inl e | None \<Rightarrow> Inr (results (fst s4))))"
  using assms unfolding validate_def Let_def by (auto split: option.splits)

lemma store_outcome: "store w s = (s, if use_firebase s then store_results w (results s) else None)"
  by (simp add: store_def)

lemma validate_keeps: "same_inputs s (fst (validate w s))"
proof (cases "scenes s = []")
  case True
  then show ?thesis by (simp add: validate_def same_inputs_refl)
next
  case False
  let ?s2 = "s\<lparr>results := (new_results w)\<lparr>scene_count := length (scenes s)\<rparr>\<rparr>"
  obtain s3 e3 where p: "process_scenes w (scene_order s) ?s2 = (s3, e3)"
    by (cases "process_scenes w (scene_order s) ?s2")
  with process_scenes_keeps[of ?s2 w "scene_order s"] have "same_inputs ?s2 s3" by simp
  with same_inputs_results[of s] have k3: "same_inputs s s3" by (rule same_inputs_trans)
  obtain s4 e4 where c: "compare_adjacent w (scene_order s3) s3 = (s4, e4)"
    by (cases "compare_adjacent w (scene_order s3) s3")
  with compare_adjacent_keeps[of s3 w "scene_order s3"] have "same_inputs s3 s4" by simp
  with k3 have k4: "same_inputs s s4" by (rule same_inputs_trans)
  show ?thesis
    unfolding validate_nonempty[OF False] Let_def
    using p c k3 k4
    by (cases e3; cases e4) (simp_all add: and_then_simps store_outcome)
qed

lemma validate_agree:
  assumes "same_inputs s t" and "scenes s \<noteq> []"
  shows "snd (validate w s) = snd (validate w t)"
proof -
  from assms have ne: "scenes t \<noteq> []" and len: "length (scenes s) = length (scenes t)"
    and ord: "scene_order s = scene_order t" and fb: "use_firebase s = use_firebase t"
    by (auto simp: same_inputs_def scene_inputs_def dest: arg_cong[where f = length])
  let ?r0 = "(new_results w)\<lparr>scene_count := length (scenes s)\<rparr>"
  let ?s2 = "s\<lparr>results := ?r0\<rparr>" and ?t2 = "t\<lparr>results := ?r0\<rparr>"
  have a0: "agree {} ?s2 ?t2"
    using assms(1) by (simp add: agree_def same_inputs_def scene_inputs_def)
  from process_scenes_agree[OF a0, of w "scene_order s"]
  obtain e s3 t3 where p: "process_scenes w (scene_order s) ?s2 = (s3, e)"
    "process_scenes w (scene_order s) ?t2 = (t3, e)" "agree {} s3 t3"
    "e = None \<longrightarrow> agree ({} \<union> set (scene_order s)) s3 t3" by blast
  note vs = validate_nonempty[OF assms(2), of w]
  have vt: "validate w t =
     (let s4 = and_then
                 (and_then (process_scenes w (scene_order s) ?t2)
                    (\<lambda>u. compare_adjacent w (scene_order u) u))
                 (\<lambda>u. if use_firebase u then store w u else (u, None))
      in (fst s4, case snd s4 of Some e \<Rightarrow> Inl e | None \<Rightarrow> Inr (results (fst s4))))"
    unfolding validate_nonempty[OF ne, of w] len ord ..
  show ?thesis
  proof (cases e)
    case (Some err)
    with p show ?thesis unfolding vs vt by (simp add: and_then_simps)
  next
    case None
    with p have ag: "agree (set (scene_order s)) s3 t3" by simp
    then have o3: "scene_order s3 = scene_order t3"
      by (simp add: agree_def same_inputs_def)
    from process_scenes_keeps[of ?s2 w "scene_order s"] p(1)
    have "scene_order s3 = scene_order s"
      by (simp add: same_inputs_def)
    with ag have ag': "agree (set (scene_order s3)) s3 t3" by simp
    have os: "set (scene_order s3) \<subseteq> set (scene_order s3)" by simp
    from compare_adjacent_agree[OF ag' os, of w]
    obtain e4 s4 t4 where c: "compare_adjacent w (scene_order s3) s3 = (s4, e4)"
      "compare_adjacent w (scene_order s3) t3 = (t4, e4)" "agree (set (scene_order s3)) s4 t4" by blast
    from c(3) have same: "results s4 = results t4" "use_firebase s4 = use_firebase t4"
      by (simp_all add: agree_def same_inputs_def)
    let ?x = "case e4 of Some err \<Rightarrow> Some err
              | None \<Rightarrow> if use_firebase s4 then store_results w (results s4) else None"
    have rs: "and_then
                 (and_then (process_scenes w (scene_order s) ?s2)
                    (\<lambda>u. compare_adjacent w (scene_order u) u))
                 (\<lambda>u. if use_firebase u then store w u else (u, None)) = (s4, ?x)"
      using p None c by (cases e4) (simp_all add: and_then_simps store_outcome)
    have rt: "and_then
                 (and_then (process_scenes w (scene_order s) ?t2)
                    (\<lambda>u. compare_adjacent w (scene_order u) u))
                 (\<lambda>u. if use_firebase u then store w u else (u, None)) = (t4, ?x)"
      using p None c o3 same by (cases e4) (simp_all add: and_then_simps store_outcome)
    show ?thesis
      unfolding vs vt Let_def rs rt using same by (simp split: option.splits)
  qed
qed

text \<open>
  C9. Running \<open>validate\<close> a second time on the validator the first run left behind, with
  the same responses of the collaborators, has the same outcome as the first run: the same
  exception, or a result set with the same issues in the same order and the same scene
  count. This holds for every validator state and every world: what a run computes is a
  function of the scene ids, paths and order, the storage flag and the collaborators'
  responses, and of nothing an earlier run left in the annotations or the results.
\<close>

theorem validate_twice:
  "snd (validate w (fst (validate w s))) = snd (validate w s)"
proof (cases "scenes s = []")
  case True
  then show ?thesis by (simp add: validate_def)
next
  case False
  from validate_agree[OF validate_keeps[of s w] False, of w] show ?thesis by simp
qed

section \<open>Orchestration: the empty scene set\<close>

lemma dict_set_nonempty: "dict_set k v d \<noteq> []"
  by (cases d) auto

lemma validate_empty:
  assumes "scenes s = []"
  shows "validate w s = (s, Inr (results s))"
  using assms by (simp add: validate_def)

lemma validate_keeps_scenes: "scenes (fst (validate w s)) = [] \<longleftrightarrow> scenes s = []"
proof -
  from validate_keeps[of s w] have "scene_inputs s = scene_inputs (fst (validate w s))"
    by (simp add: same_inputs_def)
  then have "length (scenes s) = length (scenes (fst (validate w s)))"
    unfolding scene_inputs_def by (rule map_eq_imp_length_eq)
  then show ?thesis by auto
qed

lemma reachable_empty:
  assumes "reachable s" and "scenes s = []"
  shows "issues (results s) = [] \<and> scene_count (results s) = 0"
  using assms
proof (induction rule: reachable.induct)
  case (reach_init w fb)
  show ?case by (simp add: init_validator_def new_results_def)
next
  case (reach_add s w p sid ts md s' lg)
  from reach_add.hyps(2) have "scenes s' \<noteq> []"
    by (auto simp: add_scene_def Let_def dict_set_nonempty split: if_splits)
  with reach_add.prems show ?case by simp
next
  case (reach_validate s w)
  from reach_validate.prems have e: "scenes s = []"
    by (simp add: validate_keeps_scenes)
  with reach_validate.IH reach_validate.prems show ?case
    by (simp add: validate_empty)
qed

lemma validate_discards:
  assumes "scenes s \<noteq> []"
  shows "validate w (s\<lparr>results := r\<rparr>) = validate w s"
proof -
  from assms have "scenes (s\<lparr>results := r\<rparr>) \<noteq> []" by simp
  from validate_nonempty[OF this, of w] validate_nonempty[OF assms, of w] show ?thesis by simp
qed

text \<open>
  C6, as stated, fails: a validator without scenes whose result set holds an issue and a
  scene count of 2 gets that very result set back from \<open>validate\<close>; the early return
  leaves the prior result set in place.
\<close>

theorem validate_empty_counterexample:
  "scenes demo_stale = []
   \<and> validate demo_world demo_stale = (demo_stale, Inr (results demo_stale))
   \<and> issues (results demo_stale) = [thirds_issue ''old'' (0, 0)]
   \<and> scene_count (results demo_stale) = 2"
  by (simp add: validate_def demo_stale_def)

text \<open>
  C6, amended. In every state that the constructor, \<open>add_scene\<close> and \<open>validate\<close> can
  produce, \<open>validate\<close> on an empty scene set raises nothing and returns the validator's
  own result set unchanged, which has zero issues and scene count 0. On a non-empty scene
  set a run discards the prior result set: the run's outcome and final state are the
  same whatever result set the validator held before.
\<close>

theorem validate_empty_reachable:
  "(reachable s \<and> scenes s = [] \<longrightarrow>
      validate w s = (s, Inr (results s))
      \<and> issues (results s) = [] \<and> scene_count (results s) = 0)
   \<and> (scenes s \<noteq> [] \<longrightarrow> validate w (s\<lparr>results := r\<rparr>) = validate w s)"
  using reachable_empty[of s] validate_empty[of s w] validate_discards[of s w r] by blast

theorem validate_empty_reachable_witness:
  "reachable (init_validator demo_world False)
   \<and> scenes (init_validator demo_world False) = []
   \<and> snd (validate demo_world (init_validator demo_world False))
       = Inr \<lparr>issues = [], validation_time = 7, scene_count = 0\<rparr>
   \<and> scenes demo_validator \<noteq> []
   \<and> validate demo_world (demo_validator\<lparr>results := results demo_stale\<rparr>)
       = validate demo_world demo_validator"
proof -
  have r: "reachable (init_validator demo_world False)" by (rule reach_init)
  have e: "scenes (init_validator demo_world False) = []" by (simp add: init_validator_def)
  have n: "scenes demo_validator \<noteq> []" by (simp add: demo_validator_def)
  have res: "results (init_validator demo_world False) = \<lparr>issues = [], validation_time = 7, scene_count = 0\<rparr>"
    by (simp add: init_validator_def new_results_def demo_world_def)
  from validate_empty_reachable[of "init_validator demo_world False" demo_world] r e res
  have a: "snd (validate demo_world (init_validator demo_world False))
       = Inr \<lparr>issues = [], validation_time = 7, scene_count = 0\<rparr>"
    by simp
  from validate_empty_reachable[of demo_validator demo_world "results demo_stale"] n
  have b: "validate demo_world (demo_validator\<lparr>results := results demo_stale\<rparr>)
       = validate demo_world demo_validator"
    by blast
  from r e a n b show ?thesis by blast
qed


section \<open>Storyboard frames\<close>

lemma frame_for_shot_id:
  assumes "frame_for_shot g scene out i shot = Some f"
  shows "frame_id f = scene_id scene @ ''_shot_'' @ str_nat (i + 1)"
  using assms
  by (auto simp: frame_for_shot_def make_frame_def Let_def split: option.splits sum.splits)

lemma frames_loop_ids:
  "map frame_id (frames_loop g scene out items) =
     map (\<lambda>(i, shot). scene_id scene @ ''_shot_'' @ str_nat (i + 1))
       (filter (\<lambda>(i, shot). frame_for_shot g scene out i shot \<noteq> None) items)"
proof (induction items)
  case Nil
  show ?case by simp
next
  case (Cons a items)
  obtain i shot where a: "a = (i, shot)" by (cases a)
  show ?case
  proof (cases "frame_for_shot g scene out i shot")
    case None
    with Cons.IH a show ?thesis by simp
  next
    case (Some f)
    with Cons.IH a frame_for_shot_id[OF Some] show ?thesis by simp
  qed
qed

lemma failed_image_no_frame:
  assumes "generate_image_for_shot g scene shot
             (path_join out (scene_id scene @ ''_shot_'' @ str_nat (i + 1) @ ''.png'')) = Some e"
  shows "frame_for_shot g scene out i shot = None"
  using assms by (simp add: frame_for_shot_def Let_def)

text \<open>
  C10. For a scene and a list of shots, the frames produced are those of the shots whose
  \<open>try\<close> block did not raise, in the order of the shots, and the id of the frame of the
  shot at 0-based index \<open>k\<close> is the scene id, \<open>_shot_\<close> and the decimal \<open>k + 1\<close>: the
  position in the input list, not among the frames produced. A shot whose image
  generation raises yields no frame, and the ids of the other frames are what they would
  be without it, so the ids of a scene can have gaps.
\<close>

theorem frame_ids_keep_positions:
  "(\<exists>fs. generate_frames_for_shots g scene (JArr shots) out = Inr fs
      \<and> map frame_id fs =
          map (\<lambda>k. scene_id scene @ ''_shot_'' @ str_nat (k + 1))
            (filter (\<lambda>k. frame_for_shot g scene out k (shots ! k) \<noteq> None) [0..<length shots]))
   \<and> (\<forall>k e. generate_image_for_shot g scene (shots ! k)
                (path_join out (scene_id scene @ ''_shot_'' @ str_nat (k + 1) @ ''.png'')) = Some e
             \<longrightarrow> frame_for_shot g scene out k (shots ! k) = None)"
proof -
  have "map frame_id (frames_loop g scene out (enumerate 0 shots)) =
          map (\<lambda>k. scene_id scene @ ''_shot_'' @ str_nat (k + 1))
            (filter (\<lambda>k. frame_for_shot g scene out k (shots ! k) \<noteq> None) [0..<length shots])"
    unfolding frames_loop_ids enumerate_nth by (simp add: filter_map comp_def)
  then show ?thesis
    using failed_image_no_frame
    by (simp add: generate_frames_for_shots_def py_iter_def)
qed

theorem frame_ids_keep_positions_witness:
  "generate_image_for_shot demo_gen_world demo_scene_1 (demo_shots ! 1)
       (path_join ''out'' (scene_id demo_scene_1 @ ''_shot_'' @ str_nat (1 + 1) @ ''.png''))
     = Some (KeyError ''shot_type'')
   \<and> frame_for_shot demo_gen_world demo_scene_1 ''out'' 1 (demo_shots ! 1) = None
   \<and> (\<exists>fs. generate_frames_for_shots demo_gen_world demo_scene_1 (JArr demo_shots) ''out'' = Inr fs
         \<and> map frame_id fs = [''scene_1_shot_1'', ''scene_1_shot_3''])"
proof -
  note th = frame_ids_keep_positions[of demo_gen_world demo_scene_1 demo_shots "''out''"]
  have bad: "generate_image_for_shot demo_gen_world demo_scene_1 (demo_shots ! 1)
       (path_join ''out'' (scene_id demo_scene_1 @ ''_shot_'' @ str_nat (1 + 1) @ ''.png''))
     = Some (KeyError ''shot_type'')"
    by (simp add: generate_image_for_shot_def shot_item_def demo_shots_def)
  with th have none: "frame_for_shot demo_gen_world demo_scene_1 ''out'' 1 (demo_shots ! 1) = None"
    by blast
  have ok0: "frame_for_shot demo_gen_world demo_scene_1 ''out'' 0 (demo_shots ! 0) \<noteq> None"
    and ok2: "frame_for_shot demo_gen_world demo_scene_1 ''out'' 2 (demo_shots ! 2) \<noteq> None"
    by (simp_all add: frame_for_shot_def generate_image_for_shot_def make_frame_def shot_item_def
        shot_get_def hashable_def demo_shots_def demo_shot_def demo_gen_world_def Let_def)
  have up: "[0..<length demo_shots] = [0, 1, 2]"
    by (simp add: demo_shots_def upt_rec)
  have s1: "str_nat (Suc 0) = ''1''" and s3: "str_nat 3 = ''3''"
    by code_simp+
  from th obtain fs where fs: "generate_frames_for_shots demo_gen_world demo_scene_1 (JArr demo_shots) ''out'' = Inr fs"
    "map frame_id fs =
          map (\<lambda>k. scene_id demo_scene_1 @ ''_shot_'' @ str_nat (k + 1))
            (filter (\<lambda>k. frame_for_shot demo_gen_world demo_scene_1 ''out'' k (demo_shots ! k) \<noteq> None)
               [0..<length demo_shots])"
    by blast
  from fs(2) none ok0 ok2 have ids: "map frame_id fs = [''scene_1_shot_1'', ''scene_1_shot_3'']"
    unfolding up by (simp add: s1 s3 demo_scene_1_def)
  from bad none fs(1) ids show ?thesis
    by - (intro conjI exI[of _ fs], assumption+)
qed

section \<open>Shot breakdown\<close>

lemma analyze_iterable: "\<exists>items. py_iter (analyze_scene_for_shots g scene) = Inr items"
proof (cases "generate_content g (heading scene) (content scene)")
  case (Inl e)
  then show ?thesis by (simp add: analyze_scene_for_shots_def py_iter_def)
next
  case (Inr result)
  show ?thesis
  proof (cases "json_loads g (clean_response result)")
    case None
    with Inr show ?thesis by (simp add: analyze_scene_for_shots_def py_iter_def)
  next
    case (Some shots)
    with Inr show ?thesis
      by (cases shots) (simp_all add: analyze_scene_for_shots_def py_iter_def py_len_def)
  qed
qed

lemma frames_never_raise:
  "generate_frames_for_shots g scene (analyze_scene_for_shots g scene) out = Inr (scene_frames g out scene)"
proof -
  from analyze_iterable[of g scene] obtain items where "py_iter (analyze_scene_for_shots g scene) = Inr items"
    by blast
  then show ?thesis
    by (simp add: scene_frames_def generate_frames_for_shots_def)
qed

lemma storyboard_loop_frames:
  "storyboard_loop g False out segs acc = Inr (acc @ concat (map (scene_frames g out) segs))"
  by (induction segs arbitrary: acc) (simp_all add: frames_never_raise)

text \<open>
  C8. When the request for a scene's shot breakdown raises, or its answer is not parsable
  as JSON, the shot analysis returns the list of exactly one fallback shot, of shot type
  WS and camera movement STATIC; the analysis is a total function, it raises in no case.
  Replacing the answer to one scene's request, by a failure or by anything else, leaves
  the shot list of every scene with a different request as it was. Without storage a
  storyboard run over a non-empty scene list never aborts: its frames are the frames of
  the scenes, each computed from the scene's own shot list, one after the other.
\<close>

theorem shot_fallback:
  "(generate_content g (heading scene) (content scene) = Inl e \<longrightarrow>
      analyze_scene_for_shots g scene = JArr [fallback_shot scene])
   \<and> (generate_content g (heading scene) (content scene) = Inr result
        \<and> json_loads g (clean_response result) = None \<longrightarrow>
      analyze_scene_for_shots g scene = JArr [fallback_shot scene])
   \<and> shot_item (fallback_shot scene) ''shot_type'' = Inr (JStr ''WS'')
   \<and> shot_item (fallback_shot scene) ''camera_movement'' = Inr (JStr ''STATIC'')
   \<and> (heading other \<noteq> heading scene \<or> content other \<noteq> content scene \<longrightarrow>
        analyze_scene_for_shots (with_response g scene resp) other = analyze_scene_for_shots g other)
   \<and> generate_storyboard g False out segs =
       (if segs = [] then Inl ValueError else Inr (concat (map (scene_frames g out) segs)))"
proof -
  have iso: "analyze_scene_for_shots (with_response g scene resp) other = analyze_scene_for_shots g other"
    if "heading other \<noteq> heading scene \<or> content other \<noteq> content scene"
  proof -
    have j: "json_loads (with_response g scene resp) = json_loads g"
      by (simp add: with_response_def)
    have gc: "generate_content (with_response g scene resp) (heading other) (content other)
            = generate_content g (heading other) (content other)"
      using that by (auto simp: with_response_def)
    show ?thesis
      unfolding analyze_scene_for_shots_def j gc ..
  qed
  show ?thesis
    using iso
    by (simp add: analyze_scene_for_shots_def fallback_shot_def shot_item_def
        generate_storyboard_def storyboard_loop_frames)
qed

theorem shot_fallback_witness:
  "generate_content demo_gen_world (heading demo_scene_1) (content demo_scene_1) = Inr ''Sorry, I cannot help.''
   \<and> json_loads demo_gen_world (clean_response ''Sorry, I cannot help.'') = None
   \<and> analyze_scene_for_shots demo_gen_world demo_scene_1 = JArr [fallback_shot demo_scene_1]
   \<and> generate_content (with_response demo_gen_world demo_scene_2 (Inl (ExternalError ''quota'')))
         (heading demo_scene_2) (content demo_scene_2) = Inl (ExternalError ''quota'')
   \<and> analyze_scene_for_shots (with_response demo_gen_world demo_scene_2 (Inl (ExternalError ''quota'')))
         demo_scene_2 = JArr [fallback_shot demo_scene_2]
   \<and> heading demo_scene_1 \<noteq> heading demo_scene_2
   \<and> analyze_scene_for_shots (with_response demo_gen_world demo_scene_1 (Inl (ExternalError ''quota'')))
         demo_scene_2 = JArr demo_shots"
proof -
  let ?q = "Inl (ExternalError ''quota'') :: py_error + string"
  have r1: "generate_content demo_gen_world (heading demo_scene_1) (content demo_scene_1) = Inr ''Sorry, I cannot help.''"
    by (simp add: demo_gen_world_def demo_scene_1_def)
  have cl: "clean_response ''Sorry, I cannot help.'' = ''Sorry, I cannot help.''"
    by code_simp
  have j1: "json_loads demo_gen_world (clean_response ''Sorry, I cannot help.'') = None"
    unfolding cl by (simp add: demo_gen_world_def)
  have r2: "generate_content (with_response demo_gen_world demo_scene_2 ?q)
         (heading demo_scene_2) (content demo_scene_2) = ?q"
    by (simp add: with_response_def)
  have ne: "heading demo_scene_1 \<noteq> heading demo_scene_2"
    by (simp add: demo_scene_1_def demo_scene_2_def)
  have cl2: "clean_response ''[three shots]'' = ''[three shots]''"
    by code_simp
  have d2: "analyze_scene_for_shots demo_gen_world demo_scene_2 = JArr demo_shots"
    by (simp add: analyze_scene_for_shots_def demo_gen_world_def demo_scene_2_def cl2 py_len_def)
  from shot_fallback[of demo_gen_world demo_scene_1 _ "''Sorry, I cannot help.''"] r1 j1
  have a: "analyze_scene_for_shots demo_gen_world demo_scene_1 = JArr [fallback_shot demo_scene_1]"
    by blast
  from shot_fallback[of "with_response demo_gen_world demo_scene_2 ?q" demo_scene_2 "ExternalError ''quota''"] r2
  have b: "analyze_scene_for_shots (with_response demo_gen_world demo_scene_2 ?q) demo_scene_2
        = JArr [fallback_shot demo_scene_2]"
    by blast
  from shot_fallback[of demo_gen_world demo_scene_1 _ _ demo_scene_2 ?q] ne d2
  have c: "analyze_scene_for_shots (with_response demo_gen_world demo_scene_1 ?q) demo_scene_2 = JArr demo_shots"
    by simp
  from r1 j1 a r2 b ne c show ?thesis
    by - (intro conjI, assumption+)
qed

end
